theory Spec2Isabelle
  imports Main "HOL-Library.Multiset"
begin

section \<open>Data model\<close>

text \<open>
  Dates are read through \<^verbatim>\<open>Date.getTime()\<close>: milliseconds since the epoch, an integer.
  A nullable \<^verbatim>\<open>Date\<close> is an option. Global ids (palantiri's \<^verbatim>\<open>AccountGlobalId\<close> and
  \<^verbatim>\<open>DiscussionGlobalId\<close>) are strings, compared with \<^verbatim>\<open>===\<close>.
\<close>

type_synonym Date = int
type_synonym GlobalId = string

text \<open>
  \<^verbatim>\<open>new Incident(name, ...)\<close>: the rejection value of a promise. Only the first argument
  of the constructor is kept.
\<close>

datatype Incident = Incident string

text \<open>
  The interfaces \<^verbatim>\<open>ContactAccountInterface\<close>, \<^verbatim>\<open>UserAccountInterface\<close>,
  \<^verbatim>\<open>SimpleMessage\<close> and \<^verbatim>\<open>SimpleDiscussion\<close> are declared outside the two source files.
  Their identity accessors (\<^verbatim>\<open>getGlobalId\<close>, \<^verbatim>\<open>getDriverName\<close>,
  \<^verbatim>\<open>getLocalUserAccount\<close>, \<^verbatim>\<open>getContactAccounts\<close>, \<^verbatim>\<open>getBody\<close>,
  \<^verbatim>\<open>getCreationDate\<close>) are reads of a field. Their operations that reach a driver
  (\<^verbatim>\<open>getMessages\<close>, \<^verbatim>\<open>getParticipants\<close>, \<^verbatim>\<open>sendMessage\<close>, \<^verbatim>\<open>merge\<close>,
  \<^verbatim>\<open>isTheSameAs\<close>, the account's \<^verbatim>\<open>getOrCreateDiscussion\<close>) are parameters of the
  functions below.
\<close>

record ContactAccount =
  contactGlobalId :: GlobalId

record UserAccount =
  accountGlobalId :: GlobalId
  contactAccounts :: "ContactAccount list"

record SimpleMessage =
  body :: string
  creationDate :: Date

record SimpleDiscussion =
  globalId :: GlobalId
  driverName :: string
  localUserAccount :: UserAccount

text \<open>\<^verbatim>\<open>interface Subdiscussion { subdiscussion; added; removed }\<close>\<close>

record Subdiscussion =
  subdiscussion :: SimpleDiscussion
  added :: Date
  removed :: "Date option"

record User =
  globalUsername :: string
  accounts :: "UserAccount list"

record MetaDiscussion =
  user :: User
  subDiscussions :: "Subdiscussion list"
  metaId :: string
  listening :: bool

text \<open>A promise is settled with a rejection (\<open>Inl\<close>) or a value (\<open>Inr\<close>).\<close>

type_synonym 'a promise = "Incident + 'a"

text \<open>
  \<^verbatim>\<open>Bluebird.all\<close> and \<^verbatim>\<open>Bluebird.map\<close>: fulfilled with every value, in the order of the
  input, when each promise is fulfilled; rejected as soon as one is rejected. No handler
  chained with \<^verbatim>\<open>then\<close> runs on a rejected promise.
\<close>

fun Bluebird_all :: "'a promise list \<Rightarrow> 'a list promise" where
  "Bluebird_all [] = Inr []"
| "Bluebird_all (p # ps) =
     (case p of
        Inl e \<Rightarrow> Inl e
      | Inr v \<Rightarrow> (case Bluebird_all ps of Inl e \<Rightarrow> Inl e | Inr vs \<Rightarrow> Inr (v # vs)))"

definition Bluebird_map :: "('a \<Rightarrow> 'b promise) \<Rightarrow> 'a list \<Rightarrow> 'b list promise" where
  "Bluebird_map mapper xs = Bluebird_all (map mapper xs)"

text \<open>JavaScript truthiness of a number: \<^verbatim>\<open>0\<close> is falsy.\<close>

definition truthy :: "int \<Rightarrow> bool" where
  "truthy n \<longleftrightarrow> n \<noteq> 0"

section \<open>MetaDiscussion: the registry\<close>

text \<open>\<^verbatim>\<open>getSubDiscussions\<close> pushes the discussion of every registry entry, removed or not.\<close>

definition getSubDiscussions :: "MetaDiscussion \<Rightarrow> SimpleDiscussion list" where
  "getSubDiscussions this = map subdiscussion (subDiscussions this)"

definition getDatedSubdiscussions :: "MetaDiscussion \<Rightarrow> Subdiscussion list" where
  "getDatedSubdiscussions this = subDiscussions this"

subsection \<open>removeSubdiscussion\<close>

text \<open>
  The loop of \<^verbatim>\<open>removeSubdiscussion\<close> is
  \<^verbatim>\<open>for(let i: number; i = 0; i++) { ... }\<close>.
  Its condition is the assignment \<^verbatim>\<open>i = 0\<close>: it stores 0 in \<^verbatim>\<open>i\<close> and has the value 0.
  The argument \<open>i\<close> is the value of the loop variable before the condition is evaluated
  (\<open>None\<close> for \<^verbatim>\<open>undefined\<close>). The result is the registry and the flag \<^verbatim>\<open>found\<close>.
\<close>

function removeLoop ::
  "Date \<Rightarrow> bool list \<Rightarrow> Subdiscussion list \<Rightarrow> nat option \<Rightarrow> Subdiscussion list \<times> bool" where
  "removeLoop now sames subs i =
     (let i0 = (0 :: nat) in
      if truthy (int i0) then
        (if sames ! i0 \<and> removed (subs ! i0) = None
         then (subs[i0 := (subs ! i0)\<lparr>removed := Some now\<rparr>], True)
         else removeLoop now sames subs (Some (i0 + 1)))
      else (subs, False))"
  by pat_completeness auto
termination
  by (relation "{}") (simp_all add: truthy_def)

text \<open>
  A call that mutates the registry returns the settled promise together with the
  Meta-Discussion as the call leaves it. The promise of these calls is fulfilled with
  \<^verbatim>\<open>this\<close>, which is the second component; the value is \<open>()\<close>.
\<close>

definition removeSubdiscussion ::
  "(SimpleDiscussion \<Rightarrow> SimpleDiscussion \<Rightarrow> bool) \<Rightarrow> Date \<Rightarrow> MetaDiscussion \<Rightarrow> SimpleDiscussion
     \<Rightarrow> unit promise \<times> MetaDiscussion" where
  "removeSubdiscussion isTheSameAs now this subDiscussion =
     (if length (subDiscussions this) = 0 then (Inl (Incident ''Empty meta-discussion''), this)
      else
        (let sames = map (\<lambda>subdiscuss. isTheSameAs subDiscussion (subdiscussion subdiscuss))
                         (getDatedSubdiscussions this);
             (subs, found) = removeLoop now sames (subDiscussions this) None
         in if \<not> found then (Inl (Incident ''No such discussion''), this\<lparr>subDiscussions := subs\<rparr>)
            else (Inr (), this\<lparr>subDiscussions := subs\<rparr>)))"

subsection \<open>addSubdiscussion\<close>

text \<open>
  The loop \<^verbatim>\<open>for(let i = 0; i < protocols.length; i++)\<close> with its \<^verbatim>\<open>break\<close>.
  \<open>mergeInto a b\<close> is the discussion \<open>a\<close> after \<^verbatim>\<open>a.merge(b)\<close>, the merge of
  \<^verbatim>\<open>SimpleDiscussion\<close>. The result is the registry and the flag \<^verbatim>\<open>found\<close>.
\<close>

function mergeLoop ::
  "(SimpleDiscussion \<Rightarrow> SimpleDiscussion \<Rightarrow> SimpleDiscussion) \<Rightarrow> string list \<Rightarrow> GlobalId list
     \<Rightarrow> string \<Rightarrow> GlobalId \<Rightarrow> SimpleDiscussion \<Rightarrow> nat \<Rightarrow> Subdiscussion list
     \<Rightarrow> Subdiscussion list \<times> bool" where
  "mergeLoop mergeInto protocols userAccountIDs protocol accountID subDiscussion i subs =
     (if i < length protocols then
        (if protocols ! i = protocol \<and> userAccountIDs ! i = accountID \<and> removed (subs ! i) = None
         then (subs[i := (subs ! i)\<lparr>subdiscussion :=
                             mergeInto (subdiscussion (subs ! i)) subDiscussion\<rparr>], True)
         else mergeLoop mergeInto protocols userAccountIDs protocol accountID subDiscussion
                (i + 1) subs)
      else (subs, False))"
  by pat_completeness auto
termination
  by (relation "measure (\<lambda>(mergeInto, protocols, userAccountIDs, protocol, accountID,
                            subDiscussion, i, subs). length protocols - i)") auto

declare mergeLoop.simps [simp del]

definition addSubdiscussion ::
  "(SimpleDiscussion \<Rightarrow> SimpleDiscussion \<Rightarrow> SimpleDiscussion) \<Rightarrow> Date \<Rightarrow> MetaDiscussion
     \<Rightarrow> SimpleDiscussion \<Rightarrow> unit promise \<times> MetaDiscussion" where
  "addSubdiscussion mergeInto now this subDiscussion =
     (let protocol = driverName subDiscussion;
          accountID = accountGlobalId (localUserAccount subDiscussion);
          subdiscussID = globalId subDiscussion;
          subdiscussions = getSubDiscussions this;
          protocols = map driverName subdiscussions;
          subdiscussionsIDs = map globalId subdiscussions;
          userAccountIDs = map (\<lambda>subdiscuss. accountGlobalId (localUserAccount subdiscuss))
                               subdiscussions
      in if subdiscussID \<in> set subdiscussionsIDs then (Inl (Incident ''Already existing''), this)
         else
           (let (subs, found) = mergeLoop mergeInto protocols userAccountIDs protocol accountID
                                  subDiscussion 0 (subDiscussions this)
            in if \<not> found
               then (Inr (), this\<lparr>subDiscussions :=
                                   subs @ [\<lparr>subdiscussion = subDiscussion, added = now,
                                            removed = None\<rparr>]\<rparr>)
               else (Inr (), this\<lparr>subDiscussions := subs\<rparr>)))"

text \<open>An active registry entry of a (driver, local account) pair.\<close>

definition activeFor :: "string \<Rightarrow> GlobalId \<Rightarrow> Subdiscussion \<Rightarrow> bool" where
  "activeFor protocol accountID entry \<longleftrightarrow>
     driverName (subdiscussion entry) = protocol
     \<and> accountGlobalId (localUserAccount (subdiscussion entry)) = accountID
     \<and> removed entry = None"

subsection \<open>isHeterogeneous\<close>

text \<open>
  The loop \<^verbatim>\<open>for(let x of xs) { if(x !== xs[0]) { heterogeneous = true; break; } }\<close>,
  with \<open>first\<close> for \<^verbatim>\<open>xs[0]\<close>; its value is \<^verbatim>\<open>heterogeneous\<close> after the loop.
\<close>

fun differsFromFirst :: "'a \<Rightarrow> 'a list \<Rightarrow> bool" where
  "differsFromFirst first [] = False"
| "differsFromFirst first (x # xs) = (if x \<noteq> first then True else differsFromFirst first xs)"

definition isHeterogeneous :: "MetaDiscussion \<Rightarrow> bool" where
  "isHeterogeneous this =
     (if length (subDiscussions this) = 0 then False
      else
        (let protocols = map driverName (getSubDiscussions this);
             userAccountIDs = map (\<lambda>subdiscussion. accountGlobalId (localUserAccount subdiscussion))
                                  (getSubDiscussions this);
             heterogeneous = differsFromFirst (protocols ! 0) protocols
         in if \<not> heterogeneous then differsFromFirst (userAccountIDs ! 0) userAccountIDs
            else heterogeneous))"

section \<open>MetaDiscussion: getMessages\<close>

text \<open>
  \<^verbatim>\<open>GetMessagesOptions\<close>, with the three fields of the default literal
  \<^verbatim>\<open>{maxMessages: 20, afterDate: null, filter: null}\<close>.
\<close>

record GetMessagesOptions =
  maxMessages :: "nat option"
  afterDate :: "Date option"
  filter_opt :: "(SimpleMessage \<Rightarrow> bool) option"

text \<open>The pooled pairs \<^verbatim>\<open>{msg: SimpleMessage, date: Date}\<close>.\<close>

record DatedMsg =
  msg :: SimpleMessage
  date :: Date

text \<open>
  Modelled from the spec: \<^verbatim>\<open>meta-message.ts\<close> is not among the source files. A Meta-Message
  is an ordered collection of Simple Messages, built by \<^verbatim>\<open>new MetaMessage(messages)\<close>;
  \<^verbatim>\<open>merge\<close> is its only mutator and appends the constituents of another Meta-Message.
\<close>

datatype MetaMessage = MetaMessage (subMessages: "SimpleMessage list")

definition merge :: "MetaMessage \<Rightarrow> MetaMessage \<Rightarrow> MetaMessage" where
  "merge this other = MetaMessage (subMessages this @ subMessages other)"

text \<open>
  Modelled from the spec: \<^verbatim>\<open>simple-message.ts\<close> is not among the source files. A Simple
  Message exposes a body-equality check against another message.
\<close>

definition hasTheSameBodyAs :: "SimpleMessage \<Rightarrow> SimpleMessage \<Rightarrow> bool" where
  "hasTheSameBodyAs this other \<longleftrightarrow> body this = body other"

text \<open>\<^verbatim>\<open>datedMsgs.splice(j, 1)\<close> removes the element at index \<open>j\<close>.\<close>

definition splice1 :: "'a list \<Rightarrow> nat \<Rightarrow> 'a list" where
  "splice1 xs j = take j xs @ drop (Suc j) xs"

text \<open>
  The inner loop \<^verbatim>\<open>for (let j = i + 1; j < datedMsgs.length; j++)\<close>. After a splice the
  source decrements \<open>j\<close> and the loop header increments it: the next round reads the same
  index of the shortened array. The result is the Meta-Message and the array.
\<close>

function innerLoop ::
  "DatedMsg \<Rightarrow> nat \<Rightarrow> MetaMessage \<Rightarrow> DatedMsg list \<Rightarrow> MetaMessage \<times> DatedMsg list" where
  "innerLoop message j meta datedMsgs =
     (if j < length datedMsgs then
        (if date message > date (datedMsgs ! j) + 5 * 1000 * 60 then (meta, datedMsgs)
         else if hasTheSameBodyAs (msg message) (msg (datedMsgs ! j)) then
           innerLoop message j (merge meta (MetaMessage [msg (datedMsgs ! j)])) (splice1 datedMsgs j)
         else innerLoop message (j + 1) meta datedMsgs)
      else (meta, datedMsgs))"
  by pat_completeness auto
termination
  by (relation "measure (\<lambda>(message, j, meta, datedMsgs). length datedMsgs - j)")
     (auto simp: splice1_def)

declare innerLoop.simps [simp del]

lemma innerLoop_length: "length (snd (innerLoop message j meta datedMsgs)) \<le> length datedMsgs"
proof (induction message j meta datedMsgs rule: innerLoop.induct)
  case (1 message j meta datedMsgs)
  show ?case
  proof (cases "j < length datedMsgs")
    case False
    then show ?thesis by (simp add: innerLoop.simps [of message j meta datedMsgs])
  next
    case inside: True
    have shorter: "length (splice1 datedMsgs j) \<le> length datedMsgs"
      by (simp add: splice1_def)
    from inside "1.IH" shorter show ?thesis
      by (auto simp: innerLoop.simps [of message j meta datedMsgs] intro: order_trans)
  qed
qed

text \<open>
  The outer loop \<^verbatim>\<open>for (let i = 0; i < datedMsgs.length; i++)\<close>, with the array
  \<^verbatim>\<open>metaMessages\<close> it pushes to.
\<close>

function outerLoop :: "nat \<Rightarrow> DatedMsg list \<Rightarrow> MetaMessage list \<Rightarrow> MetaMessage list" where
  "outerLoop i datedMsgs metaMessages =
     (if i < length datedMsgs then
        (let message = datedMsgs ! i;
             (meta, datedMsgs') = innerLoop message (i + 1) (MetaMessage [msg message]) datedMsgs
         in outerLoop (i + 1) datedMsgs' (metaMessages @ [meta]))
      else metaMessages)"
  by pat_completeness auto
termination
proof (relation "measure (\<lambda>(i, datedMsgs, metaMessages). length datedMsgs - i)")
  show "wf (measure (\<lambda>(i, datedMsgs, metaMessages). length datedMsgs - i))"
    by simp
next
  fix i :: nat and datedMsgs :: "DatedMsg list" and metaMessages :: "MetaMessage list"
    and message pair meta datedMsgs'
  assume inside: "i < length datedMsgs" and "message = datedMsgs ! i"
    and pair: "pair = innerLoop message (i + 1) (MetaMessage [msg message]) datedMsgs"
    and split: "(meta, datedMsgs') = pair"
  have "length (snd pair) \<le> length datedMsgs"
    unfolding pair by (rule innerLoop_length)
  with split have "length datedMsgs' \<le> length datedMsgs"
    by (metis snd_conv)
  with inside
  show "((i + 1, datedMsgs', metaMessages @ [meta]), (i, datedMsgs, metaMessages))
          \<in> measure (\<lambda>(i, datedMsgs, metaMessages). length datedMsgs - i)"
    by simp
qed

declare outerLoop.simps [simp del]

text \<open>\<^verbatim>\<open>_.sortBy(messages, ['date'])\<close>: a stable sort, ascending by the time value.\<close>

definition sortBy_date :: "DatedMsg list \<Rightarrow> DatedMsg list" where
  "sortBy_date messages = sort_key date messages"

text \<open>
  The source keeps one object \<^verbatim>\<open>opts\<close> for all registry entries. The callback of the
  synchronous \<^verbatim>\<open>_.map\<close> stores the entry's \<^verbatim>\<open>added\<close> in \<^verbatim>\<open>opts.afterDate\<close> and
  \<^verbatim>\<open>smallFilter\<close> in \<^verbatim>\<open>opts.filter\<close>, then passes the object itself to the
  sub-discussion's \<^verbatim>\<open>getMessages\<close>. \<open>callsOf\<close> threads the object through the entries:
  it gives every entry with the object as it is at that entry's call, and the object as
  the map leaves it. A callee that reads the object at once sees the first; one that
  reads it after an asynchronous step sees the second, whatever entry it belongs to.
\<close>

fun callsOf ::
  "GetMessagesOptions \<Rightarrow> (SimpleMessage \<Rightarrow> bool) option \<Rightarrow> Subdiscussion list
     \<Rightarrow> (Subdiscussion \<times> GetMessagesOptions) list \<times> GetMessagesOptions" where
  "callsOf opts smallFilter [] = ([], opts)"
| "callsOf opts smallFilter (discuss # subdiscuss) =
     (let opts' = opts\<lparr>afterDate := Some (added discuss), filter_opt := smallFilter\<rparr>;
          (calls, settled) = callsOf opts' smallFilter subdiscuss
      in ((discuss, opts') # calls, settled))"

text \<open>
  The work done for one registry entry. \<open>getMessagesOf\<close> is the sub-discussion's own
  \<^verbatim>\<open>getMessages(opts)\<close>; it is given the shared object as it is at the call
  (\<open>atCall\<close>) and as the map leaves it (\<open>settled\<close>). The fetched messages are paired
  with their date and the entry's \<^verbatim>\<open>removed\<close>, filtered, and the pairs
  \<^verbatim>\<open>{msg, date}\<close> are what the entry pushes to the pool.
\<close>

definition fetchEntry ::
  "(SimpleDiscussion \<Rightarrow> GetMessagesOptions \<Rightarrow> GetMessagesOptions \<Rightarrow> SimpleMessage list promise)
     \<Rightarrow> GetMessagesOptions \<Rightarrow> GetMessagesOptions \<Rightarrow> Subdiscussion \<Rightarrow> DatedMsg list promise" where
  "fetchEntry getMessagesOf atCall settled discuss =
     (case getMessagesOf (subdiscussion discuss) atCall settled of
        Inl e \<Rightarrow> Inl e
      | Inr msgs \<Rightarrow>
          (let datedMsgs = map (\<lambda>m. (m, creationDate m, removed discuss)) msgs;
               kept = filter (\<lambda>(m, d, r). case r of Some rd \<Rightarrow> d < rd | None \<Rightarrow> True) datedMsgs
           in Inr (map (\<lambda>(m, d, r). \<lparr>msg = m, date = d\<rparr>) kept)))"

text \<open>
  The array \<^verbatim>\<open>messages\<close> once every entry has pushed its pairs (here in registry
  order), or the rejection of \<^verbatim>\<open>Bluebird.all\<close>.
\<close>

definition pooledMessages ::
  "(SimpleDiscussion \<Rightarrow> GetMessagesOptions \<Rightarrow> GetMessagesOptions \<Rightarrow> SimpleMessage list promise)
     \<Rightarrow> GetMessagesOptions option \<Rightarrow> MetaDiscussion \<Rightarrow> DatedMsg list promise" where
  "pooledMessages getMessagesOf options this =
     (let opts = (case options of
                    Some given \<Rightarrow> given
                  | None \<Rightarrow> \<lparr>maxMessages = Some 20, afterDate = None, filter_opt = None\<rparr>);
          smallFilter = (case options of Some given \<Rightarrow> filter_opt given | None \<Rightarrow> None);
          (calls, settled) = callsOf opts smallFilter (getDatedSubdiscussions this)
      in case Bluebird_all (map (\<lambda>(discuss, atCall). fetchEntry getMessagesOf atCall settled discuss)
                                calls) of
           Inl e \<Rightarrow> Inl e
         | Inr pools \<Rightarrow> Inr (concat pools))"

definition getMessages ::
  "(SimpleDiscussion \<Rightarrow> GetMessagesOptions \<Rightarrow> GetMessagesOptions \<Rightarrow> SimpleMessage list promise)
     \<Rightarrow> GetMessagesOptions option \<Rightarrow> MetaDiscussion \<Rightarrow> MetaMessage list promise" where
  "getMessages getMessagesOf options this =
     (case pooledMessages getMessagesOf options this of
        Inl e \<Rightarrow> Inl e
      | Inr messages \<Rightarrow> Inr (outerLoop 0 (sortBy_date messages) []))"

subsection \<open>The two loops as recursion on the array\<close>

text \<open>
  \<open>scan\<close> is the inner loop read from index \<open>j\<close> on: the messages it folds into the
  Meta-Message and what it leaves in the array. \<open>sweep\<close> is the outer loop read from index
  \<open>i\<close> on. Both are proved equal to the loops above (\<open>innerLoop_scan\<close>,
  \<open>outerLoop_sweep\<close>).
\<close>

fun scan :: "DatedMsg \<Rightarrow> DatedMsg list \<Rightarrow> SimpleMessage list \<times> DatedMsg list" where
  "scan message [] = ([], [])"
| "scan message (c # cs) =
     (if date message > date c + 5 * 1000 * 60 then ([], c # cs)
      else if hasTheSameBodyAs (msg message) (msg c)
        then (msg c # fst (scan message cs), snd (scan message cs))
        else (fst (scan message cs), c # snd (scan message cs)))"

lemma scan_length: "length (snd (scan message cs)) \<le> length cs"
  by (induction cs) auto

function sweep :: "DatedMsg list \<Rightarrow> MetaMessage list" where
  "sweep [] = []"
| "sweep (m # ms) = MetaMessage (msg m # fst (scan m ms)) # sweep (snd (scan m ms))"
  by pat_completeness auto
termination
  by (relation "measure length") (auto simp: scan_length less_Suc_eq_le)

text \<open>
  Modelled from the spec: \<^verbatim>\<open>simple-discussion.ts\<close> is not among the source files. A Simple
  Discussion retrieves its messages with the options \<^verbatim>\<open>{maxMessages, afterDate, filter}\<close>,
  and the retrieval window is bounded below by \<^verbatim>\<open>afterDate\<close>. The \<^verbatim>\<open>afterDate\<close> it
  finds in the object it was given is the one at the call or the one the map has left.
\<close>

definition honoursAfterDate ::
  "(SimpleDiscussion \<Rightarrow> GetMessagesOptions \<Rightarrow> GetMessagesOptions \<Rightarrow> SimpleMessage list promise)
     \<Rightarrow> bool" where
  "honoursAfterDate getMessagesOf \<longleftrightarrow>
     (\<forall>d atCall settled msgs m a b.
        getMessagesOf d atCall settled = Inr msgs \<longrightarrow> m \<in> set msgs \<longrightarrow>
        afterDate atCall = Some a \<longrightarrow> afterDate settled = Some b \<longrightarrow>
        a \<le> creationDate m \<or> b \<le> creationDate m)"

section \<open>MetaDiscussion: getParticipants\<close>

record GetParticipantsOptions =
  maxParticipants :: "nat option"

text \<open>
  \<^verbatim>\<open>_.concat(array, values)\<close> creates a new array, \<open>array\<close> followed by \<open>values\<close>; it
  does not modify \<open>array\<close>.
\<close>

definition lodash_concat :: "'a list \<Rightarrow> 'a list \<Rightarrow> 'a list" where
  "lodash_concat array vals = array @ vals"

text \<open>\<^verbatim>\<open>parts.slice(0, end)\<close>; a negative \<open>end\<close> counts from the end of the array.\<close>

definition slice0 :: "'a list \<Rightarrow> int \<Rightarrow> 'a list" where
  "slice0 xs end = (if end < 0 then take (nat (int (length xs) + end)) xs else take (nat end) xs)"

text \<open>
  The handler run on the participants \<open>parts\<close> of one sub-discussion. Its state is the
  array \<^verbatim>\<open>part\<close> and the number \<^verbatim>\<open>counter\<close>. The value of each \<^verbatim>\<open>_.concat\<close> call is
  dropped by the source. \<^verbatim>\<open>options && options.maxParticipants\<close> is truthy for a
  number other than 0.
\<close>

definition collectParticipants ::
  "GetParticipantsOptions option \<Rightarrow> ContactAccount list \<times> int \<Rightarrow> ContactAccount list
     \<Rightarrow> ContactAccount list \<times> int" where
  "collectParticipants options state parts =
     (let (part, counter) = state in
      case (case options of None \<Rightarrow> None | Some given \<Rightarrow> maxParticipants given) of
        Some limit \<Rightarrow>
          (if truthy (int limit) then
             (if counter + int (length parts) < int limit then
                (let dropped = lodash_concat part parts
                 in (part, counter + int (length parts)))
              else if counter \<noteq> int limit then
                (let dropped = lodash_concat part (slice0 parts (int limit - counter))
                 in (part, counter + (int limit - counter)))
              else (part, counter))
           else
             (let dropped = lodash_concat part parts
              in (part, counter + int (length parts))))
      | None \<Rightarrow>
          (let dropped = lodash_concat part parts
           in (part, counter + int (length parts))))"

text \<open>
  \<open>getParticipantsOf\<close> is the sub-discussion's own \<^verbatim>\<open>getParticipants(options)\<close>. The
  promise is fulfilled with the array \<^verbatim>\<open>part\<close>.
\<close>

definition getParticipants ::
  "(SimpleDiscussion \<Rightarrow> GetParticipantsOptions option \<Rightarrow> ContactAccount list promise)
     \<Rightarrow> GetParticipantsOptions option \<Rightarrow> MetaDiscussion \<Rightarrow> ContactAccount list promise" where
  "getParticipants getParticipantsOf options this =
     (case Bluebird_all (map (\<lambda>discuss. getParticipantsOf discuss options)
                             (getSubDiscussions this)) of
        Inl e \<Rightarrow> Inl e
      | Inr fetched \<Rightarrow> Inr (fst (foldl (collectParticipants options) ([], 0) fetched)))"

section \<open>MetaDiscussion: the relay\<close>

text \<open>\<^verbatim>\<open>NewMessage\<close>, as the relay builds it: \<^verbatim>\<open>{body: ">>" + sourceBody}\<close>.\<close>

datatype NewMessage = NewMessage (newBody: string)

text \<open>\<^verbatim>\<open>MessageEventObject\<close>: \<^verbatim>\<open>{type: "message", message: metaMessage}\<close>.\<close>

record MessageEventObject =
  eventType :: string
  eventMessage :: MetaMessage

text \<open>
  The sub-discussions the relay sends to: those of \<^verbatim>\<open>getSubDiscussions\<close> whose global id
  is not the source's.
\<close>

definition relayTargets :: "MetaDiscussion \<Rightarrow> SimpleDiscussion \<Rightarrow> SimpleDiscussion list" where
  "relayTargets this discussionSource =
     filter (\<lambda>subdiscuss. globalId subdiscuss \<noteq> globalId discussionSource) (getSubDiscussions this)"

text \<open>
  \<open>sendMessageTo\<close> is the sub-discussion's own \<^verbatim>\<open>sendMessage\<close>. The sends are mapped with
  \<^verbatim>\<open>Bluebird.map\<close>; the handler that builds the Meta-Message is chained with \<^verbatim>\<open>then\<close>.
\<close>

definition dispatchFrom ::
  "(SimpleDiscussion \<Rightarrow> NewMessage \<Rightarrow> SimpleMessage promise) \<Rightarrow> MetaDiscussion \<Rightarrow> SimpleDiscussion
     \<Rightarrow> SimpleMessage \<Rightarrow> MetaMessage promise" where
  "dispatchFrom sendMessageTo this discussionSource messageSource =
     (let sourceBody = body messageSource in
      case Bluebird_map (\<lambda>okSubdiscussion. sendMessageTo okSubdiscussion (NewMessage (''>>'' @ sourceBody)))
             (relayTargets this discussionSource) of
        Inl e \<Rightarrow> Inl e
      | Inr relayed \<Rightarrow> Inr (MetaMessage (relayed @ [messageSource])))"

text \<open>
  The listener that \<^verbatim>\<open>attachEventsTo\<close> registers on a sub-discussion for its "message"
  event. Its value is the list of events (name and payload) the Meta-Discussion emits:
  the \<^verbatim>\<open>emit\<close> is chained with \<^verbatim>\<open>then\<close> on \<^verbatim>\<open>dispatchFrom\<close>, and nothing is chained
  for a rejection.
\<close>

definition attachEventsTo_listener ::
  "(SimpleDiscussion \<Rightarrow> NewMessage \<Rightarrow> SimpleMessage promise) \<Rightarrow> MetaDiscussion \<Rightarrow> SimpleDiscussion
     \<Rightarrow> SimpleMessage \<Rightarrow> (string \<times> MessageEventObject) list" where
  "attachEventsTo_listener sendMessageTo this discussion msgEventMessage =
     (case dispatchFrom sendMessageTo this discussion msgEventMessage of
        Inl e \<Rightarrow> []
      | Inr metaMessage \<Rightarrow> [(''message'', \<lparr>eventType = ''message'', eventMessage = metaMessage\<rparr>)])"

section \<open>User: getOrCreateDiscussion\<close>

text \<open>\<^verbatim>\<open>getAccounts()\<close> without driver names keeps every account.\<close>

definition getAccounts :: "User \<Rightarrow> UserAccount list" where
  "getAccounts this = filter (\<lambda>account. True) (accounts this)"

text \<open>
  The loop over the target ids for one owned account. \<open>account\<close> stands for the object
  \<^verbatim>\<open>userAccount.user\<close> and \<open>rightUser\<close> for the variable of that name, \<open>None\<close> for
  \<^verbatim>\<open>null\<close>. Objects are compared by reference in the source; here an account object is
  its index in the array \<^verbatim>\<open>accounts\<close> (\<^verbatim>\<open>addAccount\<close> never stores an object twice).
  The result is \<^verbatim>\<open>rightUser\<close> and \<^verbatim>\<open>heterogeneous\<close> after the loop.
\<close>

fun contactLoop :: "nat \<Rightarrow> GlobalId list \<Rightarrow> GlobalId list \<Rightarrow> nat option \<Rightarrow> nat option \<times> bool" where
  "contactLoop account accountContactsIDs [] rightUser = (rightUser, False)"
| "contactLoop account accountContactsIDs (contactID # contactsIDs) rightUser =
     (if contactID \<in> set accountContactsIDs then
        (if rightUser \<noteq> None \<and> rightUser \<noteq> Some account then (rightUser, True)
         else contactLoop account accountContactsIDs contactsIDs (Some account))
      else contactLoop account accountContactsIDs contactsIDs rightUser)"

text \<open>The loop over \<^verbatim>\<open>fullUserAccounts\<close>, the pairs \<^verbatim>\<open>{user, contactsIDs}\<close>.\<close>

fun accountLoop :: "(nat \<times> GlobalId list) list \<Rightarrow> GlobalId list \<Rightarrow> nat option \<Rightarrow> nat option \<times> bool" where
  "accountLoop [] contactsIDs rightUser = (rightUser, False)"
| "accountLoop (userAccount # fullUserAccounts) contactsIDs rightUser =
     (let (rightUser', heterogeneous) =
            contactLoop (fst userAccount) (snd userAccount) contactsIDs rightUser
      in if heterogeneous then (rightUser', True)
         else accountLoop fullUserAccounts contactsIDs rightUser')"

datatype DiscussionInterface = Simple SimpleDiscussion | Meta MetaDiscussion

text \<open>
  \<open>accountGetOrCreate\<close> is the account's own \<^verbatim>\<open>getOrCreateDiscussion\<close>. In the
  heterogeneous branch the source builds \<^verbatim>\<open>new MetaDiscussion(this)\<close>, whose id is a fresh
  \<open>uuid\<close>, and calls \<^verbatim>\<open>addParticipant\<close> for every contact at once; \<open>addParticipants\<close>
  stands for that fan-out and gives the Meta-Discussion it leaves.
\<close>

definition getOrCreateDiscussion ::
  "(UserAccount \<Rightarrow> ContactAccount list \<Rightarrow> DiscussionInterface promise)
     \<Rightarrow> (MetaDiscussion \<Rightarrow> ContactAccount list \<Rightarrow> MetaDiscussion promise) \<Rightarrow> string
     \<Rightarrow> User \<Rightarrow> ContactAccount list \<Rightarrow> DiscussionInterface promise" where
  "getOrCreateDiscussion accountGetOrCreate addParticipants uuid this contacts =
     (let contactsIDs = map contactGlobalId contacts;
          userAccounts = getAccounts this;
          fullUserAccounts = map (\<lambda>(reference, account).
                                    (reference, map contactGlobalId (contactAccounts account)))
                                 (enumerate 0 userAccounts);
          (rightUser, heterogeneous) = accountLoop fullUserAccounts contactsIDs None
      in case rightUser of
           None \<Rightarrow> Inl (Incident ''One of the contacts is unknown by the current user.'')
         | Some reference \<Rightarrow>
             (if heterogeneous then
                (case addParticipants \<lparr>user = this, subDiscussions = [], metaId = uuid,
                                       listening = False\<rparr> contacts of
                   Inl e \<Rightarrow> Inl e
                 | Inr discussion \<Rightarrow> Inr (Meta discussion))
              else accountGetOrCreate (userAccounts ! reference) contacts))"

text \<open>An owned account knows one of the target contacts: their global ids intersect.\<close>

definition knows :: "UserAccount \<Rightarrow> ContactAccount list \<Rightarrow> bool" where
  "knows account contacts \<longleftrightarrow>
     set (map contactGlobalId (contactAccounts account)) \<inter> set (map contactGlobalId contacts) \<noteq> {}"

section \<open>Sample values\<close>

definition sampleDiscussion :: "GlobalId \<Rightarrow> string \<Rightarrow> GlobalId \<Rightarrow> SimpleDiscussion" where
  "sampleDiscussion gid driver account =
     \<lparr>globalId = gid, driverName = driver,
      localUserAccount = \<lparr>accountGlobalId = account, contactAccounts = []\<rparr>\<rparr>"

definition sampleMeta :: "Subdiscussion list \<Rightarrow> MetaDiscussion" where
  "sampleMeta subs =
     \<lparr>user = \<lparr>globalUsername = ''u'', accounts = []\<rparr>, subDiscussions = subs,
      metaId = ''m'', listening = False\<rparr>"

text \<open>A retrieval that reads \<^verbatim>\<open>afterDate\<close> at once, when it is called.\<close>

definition sampleGetMessages ::
  "SimpleDiscussion \<Rightarrow> GetMessagesOptions \<Rightarrow> GetMessagesOptions \<Rightarrow> SimpleMessage list promise" where
  "sampleGetMessages d atCall settled =
     Inr (filter (\<lambda>m. case afterDate atCall of None \<Rightarrow> True | Some a \<Rightarrow> a \<le> creationDate m)
            (if globalId d = ''x:d1''
             then [\<lparr>body = ''old'', creationDate = 5\<rparr>, \<lparr>body = ''hi'', creationDate = 100\<rparr>,
                   \<lparr>body = ''late'', creationDate = 2000\<rparr>]
             else [\<lparr>body = ''yo'', creationDate = 150\<rparr>, \<lparr>body = ''hi'', creationDate = 200\<rparr>]))"

text \<open>
  A retrieval that reads \<^verbatim>\<open>afterDate\<close> after an asynchronous step, from the object as
  the map has left it. The discussion \<open>x:d1\<close> holds two messages, the other none.
\<close>

definition lateGetMessages ::
  "SimpleDiscussion \<Rightarrow> GetMessagesOptions \<Rightarrow> GetMessagesOptions \<Rightarrow> SimpleMessage list promise" where
  "lateGetMessages d atCall settled =
     Inr (filter (\<lambda>m. case afterDate settled of None \<Rightarrow> True | Some a \<Rightarrow> a \<le> creationDate m)
            (if globalId d = ''x:d1''
             then [\<lparr>body = ''early'', creationDate = 500\<rparr>, \<lparr>body = ''hi'', creationDate = 1500\<rparr>]
             else []))"

text \<open>A registry whose second entry was added before the first, as the constructor accepts.\<close>

definition lateRegistry :: "Subdiscussion list" where
  "lateRegistry =
     [\<lparr>subdiscussion = sampleDiscussion ''x:d1'' ''x'' ''x:me'', added = 1000, removed = None\<rparr>,
      \<lparr>subdiscussion = sampleDiscussion ''y:d2'' ''y'' ''y:me'', added = 0, removed = None\<rparr>]"

definition sampleRegistry :: "Subdiscussion list" where
  "sampleRegistry =
     [\<lparr>subdiscussion = sampleDiscussion ''x:d1'' ''x'' ''x:me'', added = 10, removed = Some 1000\<rparr>,
      \<lparr>subdiscussion = sampleDiscussion ''y:d2'' ''y'' ''y:me'', added = 20, removed = None\<rparr>]"

text \<open>
  A merge that leaves its mark on the discussion it is called on: the merged discussion
  keeps its driver and local account and carries both ids.
\<close>

definition sampleMerge :: "SimpleDiscussion \<Rightarrow> SimpleDiscussion \<Rightarrow> SimpleDiscussion" where
  "sampleMerge this other = this\<lparr>globalId := globalId this @ ''+'' @ globalId other\<rparr>"

text \<open>A registry with two active entries of the driver \<open>y\<close> and the account \<open>y:me\<close>.\<close>

definition twoActiveRegistry :: "Subdiscussion list" where
  "twoActiveRegistry =
     [\<lparr>subdiscussion = sampleDiscussion ''y:d2'' ''y'' ''y:me'', added = 20, removed = None\<rparr>,
      \<lparr>subdiscussion = sampleDiscussion ''y:d4'' ''y'' ''y:me'', added = 30, removed = None\<rparr>]"

definition sampleSend :: "SimpleDiscussion \<Rightarrow> NewMessage \<Rightarrow> SimpleMessage promise" where
  "sampleSend discussion newMessage =
     (if driverName discussion = ''y'' then Inl (Incident ''unreachable'')
      else Inr \<lparr>body = newBody newMessage, creationDate = 7000\<rparr>)"

definition relayRegistry :: "Subdiscussion list" where
  "relayRegistry =
     [\<lparr>subdiscussion = sampleDiscussion ''x:d1'' ''x'' ''x:me'', added = 10, removed = None\<rparr>,
      \<lparr>subdiscussion = sampleDiscussion ''y:d2'' ''y'' ''y:me'', added = 20, removed = None\<rparr>,
      \<lparr>subdiscussion = sampleDiscussion ''z:d3'' ''z'' ''z:me'', added = 30, removed = None\<rparr>]"

definition sampleUser :: User where
  "sampleUser =
     \<lparr>globalUsername = ''u'',
      accounts = [\<lparr>accountGlobalId = ''x:me'', contactAccounts = [\<lparr>contactGlobalId = ''x:carol''\<rparr>]\<rparr>,
                  \<lparr>accountGlobalId = ''y:me'', contactAccounts = [\<lparr>contactGlobalId = ''y:dave''\<rparr>]\<rparr>]\<rparr>"

definition sampleAccountGetOrCreate :: "UserAccount \<Rightarrow> ContactAccount list \<Rightarrow> DiscussionInterface promise" where
  "sampleAccountGetOrCreate account contacts =
     Inr (Simple (sampleDiscussion ''x:new'' ''x'' (accountGlobalId account)))"

section \<open>Removal of a sub-discussion\<close>

lemma removeLoop_never_runs: "removeLoop now sames subs i = (subs, False)"
  by (simp add: truthy_def)

lemma removeSubdiscussion_rejects:
  "removeSubdiscussion isTheSameAs now this subDiscussion =
     (Inl (Incident (if subDiscussions this = [] then ''Empty meta-discussion''
                     else ''No such discussion'')), this)"
  by (simp add: removeSubdiscussion_def removeLoop_never_runs del: removeLoop.simps)

text \<open>
  C4. \<^verbatim>\<open>removeSubdiscussion(d)\<close> is meant to succeed and to stamp \<^verbatim>\<open>removed\<close> on the active
  entry whose discussion is the same as \<open>d\<close>. The registry here holds one entry, active,
  whose discussion is \<open>d\<close> itself; the call is made at time 1000. The loop body never
  runs, \<^verbatim>\<open>found\<close> stays false, and the call is rejected with "No such discussion";
  the entry stays active.
\<close>

theorem removeSubdiscussion_active_entry_rejected:
  "removeSubdiscussion (\<lambda>a b. globalId a = globalId b) 1000
     (sampleMeta [\<lparr>subdiscussion = sampleDiscussion ''x:d1'' ''x'' ''x:me'', added = 0, removed = None\<rparr>])
     (sampleDiscussion ''x:d1'' ''x'' ''x:me'')
   = (Inl (Incident ''No such discussion''),
      sampleMeta [\<lparr>subdiscussion = sampleDiscussion ''x:d1'' ''x'' ''x:me'', added = 0, removed = None\<rparr>])"
  by (simp add: removeSubdiscussion_rejects sampleMeta_def)

section \<open>getMessages: the loops\<close>

lemma splice1_take: "j < length xs \<Longrightarrow> take j (splice1 xs j) = take j xs"
  by (simp add: splice1_def)

lemma splice1_drop: "j < length xs \<Longrightarrow> drop j (splice1 xs j) = drop (Suc j) xs"
  by (simp add: splice1_def)

lemma innerLoop_scan:
  "j \<le> length datedMsgs \<Longrightarrow>
   innerLoop message j meta datedMsgs =
     (MetaMessage (subMessages meta @ fst (scan message (drop j datedMsgs))),
      take j datedMsgs @ snd (scan message (drop j datedMsgs)))"
proof (induction message j meta datedMsgs rule: innerLoop.induct)
  case (1 message j meta datedMsgs)
  show ?case
  proof (cases "j < length datedMsgs")
    case False
    with "1.prems" have "drop j datedMsgs = []" by simp
    with False show ?thesis
      by (simp add: innerLoop.simps [of message j meta datedMsgs])
  next
    case inside: True
    then have unfold_drop: "drop j datedMsgs = datedMsgs ! j # drop (Suc j) datedMsgs"
      by (simp add: Cons_nth_drop_Suc)
    show ?thesis
    proof (cases "date message > date (datedMsgs ! j) + 5 * 1000 * 60")
      case True
      with inside unfold_drop id_take_nth_drop [OF inside] show ?thesis
        by (simp add: innerLoop.simps [of message j meta datedMsgs])
    next
      case within: False
      show ?thesis
      proof (cases "hasTheSameBodyAs (msg message) (msg (datedMsgs ! j))")
        case same: True
        have len: "j \<le> length (splice1 datedMsgs j)"
          using inside by (simp add: splice1_def)
        from "1.IH"(1) [OF inside within same len] inside within same unfold_drop
        show ?thesis
          by (simp add: innerLoop.simps [of message j meta datedMsgs] splice1_take splice1_drop merge_def)
      next
        case other: False
        from inside have len: "j + 1 \<le> length datedMsgs" by simp
        from "1.IH"(2) [OF inside within other len] inside within other unfold_drop
        show ?thesis
          by (simp add: innerLoop.simps [of message j meta datedMsgs] take_Suc_conv_app_nth)
      qed
    qed
  qed
qed

lemma outerLoop_sweep:
  "i \<le> length datedMsgs \<Longrightarrow>
   outerLoop i datedMsgs metaMessages = metaMessages @ sweep (drop i datedMsgs)"
proof (induction i datedMsgs metaMessages rule: outerLoop.induct)
  case (1 i datedMsgs metaMessages)
  show ?case
  proof (cases "i < length datedMsgs")
    case False
    with "1.prems" have "i = length datedMsgs" by simp
    then show ?thesis
      by (simp add: outerLoop.simps [of "length datedMsgs" datedMsgs metaMessages])
  next
    case inside: True
    define message where "message = datedMsgs ! i"
    define rest where "rest = drop (Suc i) datedMsgs"
    define meta where "meta = MetaMessage (msg message # fst (scan message rest))"
    define datedMsgs' where "datedMsgs' = take (Suc i) datedMsgs @ snd (scan message rest)"
    have inner: "innerLoop message (i + 1) (MetaMessage [msg message]) datedMsgs = (meta, datedMsgs')"
      using inside by (simp add: innerLoop_scan meta_def datedMsgs'_def rest_def)
    have len: "i + 1 \<le> length datedMsgs'"
      using inside by (simp add: datedMsgs'_def)
    have step: "outerLoop (i + 1) datedMsgs' (metaMessages @ [meta])
                  = (metaMessages @ [meta]) @ sweep (drop (i + 1) datedMsgs')"
      by (rule "1.IH" [OF inside message_def refl inner [symmetric] len])
    have dropped: "drop (i + 1) datedMsgs' = snd (scan message rest)"
      using inside by (simp add: datedMsgs'_def)
    have "drop i datedMsgs = message # rest"
      using inside by (simp add: Cons_nth_drop_Suc message_def rest_def)
    then have "sweep (drop i datedMsgs) = meta # sweep (snd (scan message rest))"
      by (simp add: meta_def)
    moreover have "outerLoop i datedMsgs metaMessages
                     = outerLoop (i + 1) datedMsgs' (metaMessages @ [meta])"
      using inside inner
      by (simp add: outerLoop.simps [of i datedMsgs metaMessages] message_def)
    ultimately show ?thesis
      using step dropped by simp
  qed
qed


text \<open>On a pool sorted by date the window test of the inner loop never fires.\<close>

lemma scan_sorted_no_break:
  "\<forall>c \<in> set cs. date message \<le> date c \<Longrightarrow>
   scan message cs = (map msg (filter (\<lambda>c. hasTheSameBodyAs (msg message) (msg c)) cs),
                      filter (\<lambda>c. \<not> hasTheSameBodyAs (msg message) (msg c)) cs)"
  by (induction cs) auto

lemma scan_mset:
  "mset (fst (scan message cs)) + mset (map msg (snd (scan message cs))) = mset (map msg cs)"
  by (induction cs) auto

lemma scan_rest_subset: "set (snd (scan message cs)) \<subseteq> set cs"
  by (induction cs) auto

lemma scan_folded_subset: "set (fst (scan message cs)) \<subseteq> msg ` set cs"
  by (induction cs) auto

lemma scan_rest_sorted:
  "sorted (map date cs) \<Longrightarrow> sorted (map date (snd (scan message cs)))"
proof (induction cs)
  case Nil
  then show ?case by simp
next
  case (Cons c cs)
  from Cons.prems have tail: "sorted (map date cs)" and least: "\<forall>x \<in> set cs. date c \<le> date x"
    by auto
  from least scan_rest_subset [of message cs]
  have "\<forall>x \<in> set (snd (scan message cs)). date c \<le> date x"
    by blast
  with Cons.IH [OF tail] Cons.prems show ?case
    by auto
qed

lemma sweep_mset: "mset (concat (map subMessages (sweep xs))) = mset (map msg xs)"
proof (induction xs rule: sweep.induct)
  case 1
  show ?case by simp
next
  case (2 m ms)
  then show ?case
    using scan_mset [of m ms] by (simp add: ac_simps)
qed

lemma sweep_heads:
  "meta \<in> set (sweep xs) \<Longrightarrow> subMessages meta \<noteq> [] \<and> hd (subMessages meta) \<in> msg ` set xs"
proof (induction xs rule: sweep.induct)
  case 1
  then show ?case by simp
next
  case (2 m ms)
  from "2.prems" consider
      (first) "meta = MetaMessage (msg m # fst (scan m ms))"
    | (later) "meta \<in> set (sweep (snd (scan m ms)))"
    by auto
  then show ?case
  proof cases
    case first
    then show ?thesis by simp
  next
    case later
    from "2.IH" [OF later] scan_rest_subset [of m ms] show ?thesis
      by auto
  qed
qed

lemma sweep_earliest:
  assumes "sorted (map date xs)" and "\<forall>x \<in> set xs. date x = creationDate (msg x)"
    and "meta \<in> set (sweep xs)" and "m \<in> set (subMessages meta)"
  shows "creationDate (hd (subMessages meta)) \<le> creationDate m"
  using assms
proof (induction xs rule: sweep.induct)
  case 1
  then show ?case by simp
next
  case (2 x xs)
  from "2.prems"(1) have tail: "sorted (map date xs)" and least: "\<forall>y \<in> set xs. date x \<le> date y"
    by auto
  from "2.prems"(3) consider
      (first) "meta = MetaMessage (msg x # fst (scan x xs))"
    | (later) "meta \<in> set (sweep (snd (scan x xs)))"
    by auto
  then show ?case
  proof cases
    case first
    with "2.prems"(4) have "m = msg x \<or> m \<in> set (fst (scan x xs))"
      by auto
    then show ?thesis
    proof
      assume "m = msg x"
      with first show ?thesis by simp
    next
      assume "m \<in> set (fst (scan x xs))"
      with scan_folded_subset [of x xs] obtain y where y: "y \<in> set xs" "m = msg y"
        by blast
      with least "2.prems"(2) have "creationDate (msg x) \<le> creationDate m"
        by (metis list.set_intros(1) list.set_intros(2))
      with first show ?thesis by simp
    qed
  next
    case later
    have dated: "\<forall>y \<in> set (snd (scan x xs)). date y = creationDate (msg y)"
      using "2.prems"(2) scan_rest_subset [of x xs] by auto
    from "2.IH" [OF scan_rest_sorted [OF tail] dated later "2.prems"(4)] show ?thesis .
  qed
qed

lemma sweep_sorted:
  assumes "sorted (map date xs)" and "\<forall>x \<in> set xs. date x = creationDate (msg x)"
  shows "sorted (map (\<lambda>meta. creationDate (hd (subMessages meta))) (sweep xs))"
  using assms
proof (induction xs rule: sweep.induct)
  case 1
  show ?case by simp
next
  case (2 x xs)
  from "2.prems"(1) have tail: "sorted (map date xs)" and least: "\<forall>y \<in> set xs. date x \<le> date y"
    by auto
  have dated: "\<forall>y \<in> set (snd (scan x xs)). date y = creationDate (msg y)"
    using "2.prems"(2) scan_rest_subset [of x xs] by auto
  have later: "creationDate (msg x) \<le> creationDate (hd (subMessages meta))"
    if "meta \<in> set (sweep (snd (scan x xs)))" for meta
  proof -
    from sweep_heads [OF that] scan_rest_subset [of x xs]
    obtain y where y: "y \<in> set xs" "hd (subMessages meta) = msg y"
      by blast
    with least "2.prems"(2) show ?thesis
      by (metis list.set_intros(1) list.set_intros(2))
  qed
  from "2.IH" [OF scan_rest_sorted [OF tail] dated] later show ?case
    by auto
qed

lemma sortBy_date_sorted: "sorted (map date (sortBy_date messages))"
  by (simp add: sortBy_date_def)

lemma sortBy_date_mset: "mset (sortBy_date messages) = mset messages"
  by (simp add: sortBy_date_def)

lemma sortBy_date_set: "set (sortBy_date messages) = set messages"
  by (simp add: sortBy_date_def)

lemma Bluebird_all_fulfilled: "Bluebird_all (map Inr vs) = Inr vs"
  by (induction vs) simp_all

lemma Bluebird_all_Inr_values: "Bluebird_all ps = Inr vs \<Longrightarrow> ps = map Inr vs"
  by (induction ps arbitrary: vs) (auto split: sum.splits)

lemma Bluebird_all_Inr: "Bluebird_all ps = Inr vs \<longleftrightarrow> ps = map Inr vs"
  using Bluebird_all_fulfilled Bluebird_all_Inr_values by metis

lemma callsOf_calls:
  "(discuss, atCall) \<in> set (fst (callsOf opts smallFilter subdiscuss)) \<Longrightarrow>
   discuss \<in> set subdiscuss \<and> afterDate atCall = Some (added discuss)"
  by (induction subdiscuss arbitrary: opts) (auto simp: Let_def split_beta)

lemma callsOf_settled:
  "subdiscuss \<noteq> [] \<Longrightarrow>
   afterDate (snd (callsOf opts smallFilter subdiscuss)) = Some (added (last subdiscuss))"
proof (induction subdiscuss arbitrary: opts)
  case Nil
  then show ?case by simp
next
  case (Cons discuss subdiscuss)
  then show ?case
    by (cases "subdiscuss = []") (simp_all add: Let_def split_beta)
qed

lemma fetchEntry_window:
  assumes "fetchEntry getMessagesOf atCall settled discuss = Inr pairs" and "x \<in> set pairs"
  shows "\<exists>msgs. getMessagesOf (subdiscussion discuss) atCall settled = Inr msgs
           \<and> msg x \<in> set msgs \<and> date x = creationDate (msg x)
           \<and> (\<forall>r. removed discuss = Some r \<longrightarrow> creationDate (msg x) < r)"
  using assms by (auto simp: fetchEntry_def split: sum.splits)

lemma pooledMessages_origin:
  assumes "pooledMessages getMessagesOf options this = Inr messages" and "x \<in> set messages"
  shows "\<exists>discuss \<in> set (subDiscussions this). \<exists>atCall settled msgs.
           afterDate atCall = Some (added discuss)
         \<and> afterDate settled = Some (added (last (subDiscussions this)))
         \<and> getMessagesOf (subdiscussion discuss) atCall settled = Inr msgs
         \<and> msg x \<in> set msgs \<and> date x = creationDate (msg x)
         \<and> (\<forall>r. removed discuss = Some r \<longrightarrow> creationDate (msg x) < r)"
proof -
  define opts where "opts = (case options of
                    Some given \<Rightarrow> given
                  | None \<Rightarrow> \<lparr>maxMessages = Some 20, afterDate = None, filter_opt = None\<rparr>)"
  define smallFilter where "smallFilter = (case options of Some given \<Rightarrow> filter_opt given | None \<Rightarrow> None)"
  define calls where "calls = fst (callsOf opts smallFilter (subDiscussions this))"
  define settled where "settled = snd (callsOf opts smallFilter (subDiscussions this))"
  from assms(1) obtain pools where
    pools: "map (\<lambda>(discuss, atCall). fetchEntry getMessagesOf atCall settled discuss) calls
              = map Inr pools"
    and messages: "messages = concat pools"
    by (auto simp: pooledMessages_def Let_def split_beta opts_def smallFilter_def calls_def
          settled_def getDatedSubdiscussions_def Bluebird_all_Inr split: sum.splits)
  from assms(2) messages obtain pairs where pairs: "pairs \<in> set pools" "x \<in> set pairs"
    by auto
  then have "Inr pairs
      \<in> set (map (\<lambda>(discuss, atCall). fetchEntry getMessagesOf atCall settled discuss) calls)"
    unfolding pools by simp
  then obtain discuss atCall where call: "(discuss, atCall) \<in> set calls"
    and fetched: "fetchEntry getMessagesOf atCall settled discuss = Inr pairs"
    by auto
  from call have discuss: "discuss \<in> set (subDiscussions this)"
    and atCall: "afterDate atCall = Some (added discuss)"
    unfolding calls_def using callsOf_calls by blast+
  from discuss have "subDiscussions this \<noteq> []"
    by auto
  then have settled: "afterDate settled = Some (added (last (subDiscussions this)))"
    unfolding settled_def by (rule callsOf_settled)
  from fetchEntry_window [OF fetched pairs(2)] obtain msgs where
    "getMessagesOf (subdiscussion discuss) atCall settled = Inr msgs"
    "msg x \<in> set msgs" "date x = creationDate (msg x)"
    "\<forall>r. removed discuss = Some r \<longrightarrow> creationDate (msg x) < r"
    by blast
  with discuss atCall settled show ?thesis
    by blast
qed

lemma getMessages_members:
  assumes "getMessages getMessagesOf options this = Inr metaMessages"
    and "meta \<in> set metaMessages" and "m \<in> set (subMessages meta)"
  shows "\<exists>messages x. pooledMessages getMessagesOf options this = Inr messages
           \<and> x \<in> set messages \<and> m = msg x"
proof -
  from assms(1) obtain messages where
    pooled: "pooledMessages getMessagesOf options this = Inr messages"
    and out: "metaMessages = sweep (sortBy_date messages)"
    by (auto simp: getMessages_def outerLoop_sweep split: sum.splits)
  from assms(2,3) out have "m \<in> set (concat (map subMessages (sweep (sortBy_date messages))))"
    by auto
  then have "m \<in># mset (concat (map subMessages (sweep (sortBy_date messages))))"
    by simp
  then have "m \<in># mset (map msg (sortBy_date messages))"
    by (simp only: sweep_mset)
  then have "m \<in> msg ` set messages"
    by (simp add: sortBy_date_set)
  with pooled show ?thesis
    by blast
qed

text \<open>
  What the sort and the two loops make of a pool, in whatever order the entries pushed
  their pairs to it: a partition of the pool into non-empty Meta-Messages that open with
  their earliest message and are sorted by its date.
\<close>

lemma outerLoop_partition_sorted:
  assumes dated: "\<forall>x \<in> set messages. date x = creationDate (msg x)"
  shows "mset (concat (map subMessages (outerLoop 0 (sortBy_date messages) [])))
           = mset (map msg messages)"
    and "\<forall>meta \<in> set (outerLoop 0 (sortBy_date messages) []). subMessages meta \<noteq> []
          \<and> (\<forall>m \<in> set (subMessages meta). creationDate (hd (subMessages meta)) \<le> creationDate m)"
    and "sorted (map (\<lambda>meta. creationDate (hd (subMessages meta)))
                   (outerLoop 0 (sortBy_date messages) []))"
proof -
  define sorted_pool where "sorted_pool = sortBy_date messages"
  have loops: "outerLoop 0 sorted_pool [] = sweep sorted_pool"
    by (simp add: outerLoop_sweep)
  have ordered: "sorted (map date sorted_pool)"
    unfolding sorted_pool_def by (rule sortBy_date_sorted)
  have dated': "\<forall>x \<in> set sorted_pool. date x = creationDate (msg x)"
    using dated by (simp add: sorted_pool_def sortBy_date_set)
  have "mset (map msg sorted_pool) = mset (map msg messages)"
    unfolding sorted_pool_def using sortBy_date_mset [of messages] by (metis mset_map)
  then show "mset (concat (map subMessages (outerLoop 0 (sortBy_date messages) [])))
           = mset (map msg messages)"
    using loops by (simp add: sweep_mset sorted_pool_def)
  show "\<forall>meta \<in> set (outerLoop 0 (sortBy_date messages) []). subMessages meta \<noteq> []
          \<and> (\<forall>m \<in> set (subMessages meta). creationDate (hd (subMessages meta)) \<le> creationDate m)"
    using sweep_heads sweep_earliest [OF ordered dated'] loops
    unfolding sorted_pool_def by metis
  show "sorted (map (\<lambda>meta. creationDate (hd (subMessages meta)))
                   (outerLoop 0 (sortBy_date messages) []))"
    using sweep_sorted [OF ordered dated'] loops by (simp add: sorted_pool_def)
qed

section \<open>getMessages: the claims\<close>

lemma sample_honours: "honoursAfterDate sampleGetMessages"
  by (auto simp: honoursAfterDate_def sampleGetMessages_def split: if_splits)

lemma sample_pooled:
  "pooledMessages sampleGetMessages None (sampleMeta sampleRegistry)
     = Inr [\<lparr>msg = \<lparr>body = ''hi'', creationDate = 100\<rparr>, date = 100\<rparr>,
            \<lparr>msg = \<lparr>body = ''yo'', creationDate = 150\<rparr>, date = 150\<rparr>,
            \<lparr>msg = \<lparr>body = ''hi'', creationDate = 200\<rparr>, date = 200\<rparr>]"
  by (simp add: pooledMessages_def Let_def sampleMeta_def sampleRegistry_def
        getDatedSubdiscussions_def fetchEntry_def sampleGetMessages_def sampleDiscussion_def)

text \<open>
  C1. Two messages with equal bodies created more than 5 minutes apart are to stay in two
  Meta-Messages. Here one active sub-discussion returns two messages with the body "hi",
  created at 0 and at 600000 ms (10 minutes apart). The test before \<^verbatim>\<open>break\<close> compares
  the date of the opening message, the earlier one, with the later date plus 5 minutes,
  and is false; the second message is folded into the Meta-Message of the first.
\<close>

theorem getMessages_merges_beyond_window:
  "getMessages
     (\<lambda>d atCall settled.
         Inr [\<lparr>body = ''hi'', creationDate = 0\<rparr>, \<lparr>body = ''hi'', creationDate = 600000\<rparr>])
     None
     (sampleMeta [\<lparr>subdiscussion = sampleDiscussion ''x:d1'' ''x'' ''x:me'', added = 0, removed = None\<rparr>])
   = Inr [MetaMessage [\<lparr>body = ''hi'', creationDate = 0\<rparr>, \<lparr>body = ''hi'', creationDate = 600000\<rparr>]]"
  by (simp add: getMessages_def pooledMessages_def Let_def sampleMeta_def
        getDatedSubdiscussions_def fetchEntry_def sortBy_date_def outerLoop.simps innerLoop.simps
        hasTheSameBodyAs_def merge_def splice1_def)

text \<open>
  C2. When every sub-discussion's retrieval is fulfilled, so that the pool \<open>messages\<close> of
  surviving messages exists, \<^verbatim>\<open>getMessages\<close> is fulfilled with Meta-Messages that partition
  the pool: their constituents, taken together, are the pooled messages, each as many
  times as it was pooled. No Meta-Message is empty, the first constituent of each is its
  earliest, and the Meta-Messages are in ascending order of the creation date of that
  first constituent.
\<close>

theorem getMessages_partition_sorted:
  assumes "pooledMessages getMessagesOf options this = Inr messages"
  shows "\<exists>metaMessages. getMessages getMessagesOf options this = Inr metaMessages
     \<and> mset (concat (map subMessages metaMessages)) = mset (map msg messages)
     \<and> (\<forall>meta \<in> set metaMessages. subMessages meta \<noteq> []
          \<and> (\<forall>m \<in> set (subMessages meta). creationDate (hd (subMessages meta)) \<le> creationDate m))
     \<and> sorted (map (\<lambda>meta. creationDate (hd (subMessages meta))) metaMessages)"
proof -
  have result: "getMessages getMessagesOf options this
                  = Inr (outerLoop 0 (sortBy_date messages) [])"
    using assms by (simp add: getMessages_def)
  have dated: "\<forall>x \<in> set messages. date x = creationDate (msg x)"
    using pooledMessages_origin [OF assms] by auto
  from result outerLoop_partition_sorted [OF dated] show ?thesis
    by simp
qed

theorem getMessages_partition_sorted_witness:
  "pooledMessages sampleGetMessages None (sampleMeta sampleRegistry)
     = Inr [\<lparr>msg = \<lparr>body = ''hi'', creationDate = 100\<rparr>, date = 100\<rparr>,
            \<lparr>msg = \<lparr>body = ''yo'', creationDate = 150\<rparr>, date = 150\<rparr>,
            \<lparr>msg = \<lparr>body = ''hi'', creationDate = 200\<rparr>, date = 200\<rparr>]
   \<and> (\<exists>metaMessages. getMessages sampleGetMessages None (sampleMeta sampleRegistry) = Inr metaMessages
     \<and> mset (concat (map subMessages metaMessages))
         = mset (map msg [\<lparr>msg = \<lparr>body = ''hi'', creationDate = 100\<rparr>, date = 100\<rparr>,
                          \<lparr>msg = \<lparr>body = ''yo'', creationDate = 150\<rparr>, date = 150\<rparr>,
                          \<lparr>msg = \<lparr>body = ''hi'', creationDate = 200\<rparr>, date = 200\<rparr>])
     \<and> (\<forall>meta \<in> set metaMessages. subMessages meta \<noteq> []
          \<and> (\<forall>m \<in> set (subMessages meta). creationDate (hd (subMessages meta)) \<le> creationDate m))
     \<and> sorted (map (\<lambda>meta. creationDate (hd (subMessages meta))) metaMessages))"
  using sample_pooled getMessages_partition_sorted [OF sample_pooled] by (rule conjI)

text \<open>
  Every message in the output of \<^verbatim>\<open>getMessages\<close> was fetched from a registry entry
  and, when that entry has a \<^verbatim>\<open>removed\<close>, was created strictly before it. The entry's
  retrieval was given the shared object with \<^verbatim>\<open>afterDate\<close> equal to the entry's
  \<^verbatim>\<open>added\<close> at the call, and equal to the last entry's \<^verbatim>\<open>added\<close> once the map has
  ended. \<^verbatim>\<open>getMessages\<close> itself compares no date with \<^verbatim>\<open>added\<close>.
\<close>

lemma getMessages_origin:
  assumes "getMessages getMessagesOf options this = Inr metaMessages"
    and "meta \<in> set metaMessages" and "m \<in> set (subMessages meta)"
  shows "\<exists>discuss \<in> set (subDiscussions this). \<exists>atCall settled msgs.
           afterDate atCall = Some (added discuss)
         \<and> afterDate settled = Some (added (last (subDiscussions this)))
         \<and> getMessagesOf (subdiscussion discuss) atCall settled = Inr msgs \<and> m \<in> set msgs
         \<and> (\<forall>r. removed discuss = Some r \<longrightarrow> creationDate m < r)"
proof -
  from getMessages_members [OF assms] obtain messages x where
    pooled: "pooledMessages getMessagesOf options this = Inr messages"
    and x: "x \<in> set messages" "m = msg x"
    by blast
  from pooledMessages_origin [OF pooled x(1)] x(2) show ?thesis
    by blast
qed

lemma sorted_le_last: "sorted (map f xs) \<Longrightarrow> x \<in> set xs \<Longrightarrow> f x \<le> f (last xs)"
  by (induction xs) auto

text \<open>
  When the entries are in the order of their \<^verbatim>\<open>added\<close> dates, as \<^verbatim>\<open>addParticipant\<close> and
  \<^verbatim>\<open>addSubdiscussion\<close> append them, a retrieval that honours the \<^verbatim>\<open>afterDate\<close> it reads,
  at the call or later, returns nothing older than its own entry's \<^verbatim>\<open>added\<close>.
\<close>

lemma getMessages_window_chronological:
  assumes "honoursAfterDate getMessagesOf"
    and "sorted (map added (subDiscussions this))"
    and "getMessages getMessagesOf options this = Inr metaMessages"
    and "meta \<in> set metaMessages" and "m \<in> set (subMessages meta)"
  shows "\<exists>discuss \<in> set (subDiscussions this). \<exists>atCall settled msgs.
           getMessagesOf (subdiscussion discuss) atCall settled = Inr msgs \<and> m \<in> set msgs
         \<and> added discuss \<le> creationDate m
         \<and> (\<forall>r. removed discuss = Some r \<longrightarrow> creationDate m < r)"
proof -
  from getMessages_origin [OF assms(3-5)] obtain discuss atCall settled msgs where
    found: "discuss \<in> set (subDiscussions this)" "afterDate atCall = Some (added discuss)"
      "afterDate settled = Some (added (last (subDiscussions this)))"
      "getMessagesOf (subdiscussion discuss) atCall settled = Inr msgs" "m \<in> set msgs"
      "\<forall>r. removed discuss = Some r \<longrightarrow> creationDate m < r"
    by blast
  from assms(1) found(2-5)
  have "added discuss \<le> creationDate m \<or> added (last (subDiscussions this)) \<le> creationDate m"
    unfolding honoursAfterDate_def by blast
  moreover from sorted_le_last [OF assms(2) found(1)]
  have "added discuss \<le> added (last (subDiscussions this))" .
  ultimately have "added discuss \<le> creationDate m"
    by linarith
  with found show ?thesis
    by blast
qed

lemma lateGetMessages_honours: "honoursAfterDate lateGetMessages"
  by (auto simp: honoursAfterDate_def lateGetMessages_def split: if_splits)

text \<open>
  C3. A message created before its entry's \<^verbatim>\<open>added\<close> is to be excluded. In
  \<open>lateRegistry\<close> the first entry was added at 1000 and the second at 0; the first
  entry's discussion holds a message created at 500, and its retrieval honours the
  \<^verbatim>\<open>afterDate\<close> it reads once the map has ended. By then the shared object holds the
  second entry's \<^verbatim>\<open>added\<close>, 0, and the message created at 500 is in the output.
\<close>

theorem getMessages_shared_options_leak:
  "getMessages lateGetMessages None (sampleMeta lateRegistry)
   = Inr [MetaMessage [\<lparr>body = ''early'', creationDate = 500\<rparr>],
          MetaMessage [\<lparr>body = ''hi'', creationDate = 1500\<rparr>]]"
  by (simp add: getMessages_def pooledMessages_def Let_def sampleMeta_def lateRegistry_def
        getDatedSubdiscussions_def fetchEntry_def lateGetMessages_def sampleDiscussion_def
        sortBy_date_def outerLoop.simps innerLoop.simps hasTheSameBodyAs_def merge_def splice1_def)

section \<open>addSubdiscussion: the claims\<close>

lemma mergeLoop_first_active:
  assumes "i \<le> k" and "k < length subs"
    and "activeFor protocol accountID (subs ! k)"
    and "\<forall>j. i \<le> j \<and> j < k \<longrightarrow> \<not> activeFor protocol accountID (subs ! j)"
  shows "mergeLoop mergeInto (map (\<lambda>entry. driverName (subdiscussion entry)) subs)
           (map (\<lambda>entry. accountGlobalId (localUserAccount (subdiscussion entry))) subs)
           protocol accountID subDiscussion i subs
         = (subs[k := (subs ! k)\<lparr>subdiscussion := mergeInto (subdiscussion (subs ! k)) subDiscussion\<rparr>],
            True)"
  using assms
proof (induction "k - i" arbitrary: i)
  case 0
  then have "i = k" by simp
  with "0.prems" show ?case
    by (simp add: mergeLoop.simps [of _ _ _ _ _ _ k] activeFor_def)
next
  case (Suc n)
  then have below: "i < k" and inside: "i < length subs" by simp_all
  with Suc.prems have skip: "\<not> activeFor protocol accountID (subs ! i)" by simp
  have step: "n = k - (i + 1)" using Suc.hyps(2) by simp
  have rest: "\<forall>j. i + 1 \<le> j \<and> j < k \<longrightarrow> \<not> activeFor protocol accountID (subs ! j)"
    using Suc.prems(4) by simp
  from below have "i + 1 \<le> k" by simp
  from Suc.hyps(1) [OF step this Suc.prems(2,3) rest] skip inside show ?case
    by (subst mergeLoop.simps) (auto simp: activeFor_def)
qed

lemma mergeLoop_none_active:
  assumes "\<forall>j. i \<le> j \<and> j < length subs \<longrightarrow> \<not> activeFor protocol accountID (subs ! j)"
  shows "mergeLoop mergeInto (map (\<lambda>entry. driverName (subdiscussion entry)) subs)
           (map (\<lambda>entry. accountGlobalId (localUserAccount (subdiscussion entry))) subs)
           protocol accountID subDiscussion i subs
         = (subs, False)"
  using assms
proof (induction "length subs - i" arbitrary: i)
  case 0
  then show ?case by (simp add: mergeLoop.simps [of _ _ _ _ _ _ i])
next
  case (Suc n)
  then have inside: "i < length subs" by simp
  with Suc.prems have skip: "\<not> activeFor protocol accountID (subs ! i)" by simp
  have step: "n = length subs - (i + 1)" using Suc.hyps(2) by simp
  have rest: "\<forall>j. i + 1 \<le> j \<and> j < length subs \<longrightarrow> \<not> activeFor protocol accountID (subs ! j)"
    using Suc.prems by simp
  from Suc.hyps(1) [OF step rest] skip inside show ?case
    by (subst mergeLoop.simps) (auto simp: activeFor_def)
qed

lemma filter_length_update:
  "k < length xs \<Longrightarrow> P y = P (xs ! k) \<Longrightarrow> length (filter P (xs[k := y])) = length (filter P xs)"
proof (induction xs arbitrary: k)
  case Nil
  then show ?case by simp
next
  case (Cons x xs)
  then show ?case by (cases k) auto
qed

lemma first_active_index:
  assumes "\<exists>entry \<in> set subs. activeFor protocol accountID entry"
  obtains k where "k < length subs" and "activeFor protocol accountID (subs ! k)"
    and "\<forall>j < k. \<not> activeFor protocol accountID (subs ! j)"
proof -
  define Q where "Q k \<longleftrightarrow> k < length subs \<and> activeFor protocol accountID (subs ! k)" for k
  from assms have "\<exists>k. Q k"
    by (auto simp: Q_def in_set_conv_nth)
  then have least: "Q (Least Q)"
    by (rule LeastI_ex)
  have "\<not> activeFor protocol accountID (subs ! j)" if "j < Least Q" for j
  proof
    assume "activeFor protocol accountID (subs ! j)"
    moreover from that least have "j < length subs" by (simp add: Q_def)
    ultimately have "Q j" by (simp add: Q_def)
    with that show False using not_less_Least by blast
  qed
  with least that show thesis
    by (auto simp: Q_def)
qed

text \<open>
  C8. When some registry entry, removed or not, holds a discussion whose global id is the
  id of the incoming discussion, \<^verbatim>\<open>addSubdiscussion\<close> is rejected with "Already existing"
  and leaves the Meta-Discussion as it was.
\<close>

theorem addSubdiscussion_existing_id:
  assumes "\<exists>entry \<in> set (subDiscussions this). globalId (subdiscussion entry) = globalId subDiscussion"
  shows "addSubdiscussion mergeInto now this subDiscussion = (Inl (Incident ''Already existing''), this)"
proof -
  from assms have "globalId subDiscussion \<in> set (map globalId (getSubDiscussions this))"
    by (force simp: getSubDiscussions_def)
  then show ?thesis
    by (simp add: addSubdiscussion_def Let_def)
qed

theorem addSubdiscussion_existing_id_witness:
  "globalId (subdiscussion (sampleRegistry ! 0)) = globalId (sampleDiscussion ''x:d1'' ''z'' ''z:me'')
   \<and> addSubdiscussion (\<lambda>a b. a) 5000 (sampleMeta sampleRegistry) (sampleDiscussion ''x:d1'' ''z'' ''z:me'')
     = (Inl (Incident ''Already existing''), sampleMeta sampleRegistry)"
proof -
  have same: "globalId (subdiscussion (sampleRegistry ! 0))
                = globalId (sampleDiscussion ''x:d1'' ''z'' ''z:me'')"
    by (simp add: sampleRegistry_def sampleDiscussion_def)
  have "sampleRegistry ! 0 \<in> set (subDiscussions (sampleMeta sampleRegistry))"
    by (simp add: sampleMeta_def sampleRegistry_def)
  with same have
    "\<exists>entry \<in> set (subDiscussions (sampleMeta sampleRegistry)).
        globalId (subdiscussion entry) = globalId (sampleDiscussion ''x:d1'' ''z'' ''z:me'')"
    by blast
  from same addSubdiscussion_existing_id [OF this] show ?thesis
    by (rule conjI)
qed

text \<open>
  C5, as the claim states it, fails. \<open>twoActiveRegistry\<close> holds two active entries of
  the pair (\<open>y\<close>, \<open>y:me\<close>); the incoming discussion \<open>y:d3\<close> is of the same pair and has
  an id of its own. It is merged into the first entry, nothing is appended, and the pair
  still has two active entries.
\<close>

theorem addSubdiscussion_keeps_two_active:
  "addSubdiscussion sampleMerge 5000 (sampleMeta twoActiveRegistry)
     (sampleDiscussion ''y:d3'' ''y'' ''y:me'')
   = (Inr (),
      sampleMeta
        [\<lparr>subdiscussion = sampleDiscussion ''y:d2+y:d3'' ''y'' ''y:me'', added = 20, removed = None\<rparr>,
         \<lparr>subdiscussion = sampleDiscussion ''y:d4'' ''y'' ''y:me'', added = 30, removed = None\<rparr>])
   \<and> length (filter (activeFor ''y'' ''y:me'')
        [\<lparr>subdiscussion = sampleDiscussion ''y:d2+y:d3'' ''y'' ''y:me'', added = 20, removed = None\<rparr>,
         \<lparr>subdiscussion = sampleDiscussion ''y:d4'' ''y'' ''y:me'', added = 30, removed = None\<rparr>]) = 2"
  by (simp add: addSubdiscussion_def Let_def getSubDiscussions_def mergeLoop.simps sampleMeta_def
        twoActiveRegistry_def sampleDiscussion_def sampleMerge_def activeFor_def)

text \<open>
  C5, amended. The registry holds an active entry of the incoming discussion's driver and
  local account, no entry holds the incoming discussion's id, and \<^verbatim>\<open>SimpleDiscussion.merge\<close>
  keeps the driver and the local account of the discussion it is called on. Then
  \<^verbatim>\<open>addSubdiscussion\<close> is fulfilled, the incoming discussion is merged into the first such
  active entry, nothing is appended, and the number of active entries of that pair is what
  it was: exactly one when it was exactly one.
\<close>

theorem addSubdiscussion_merges:
  assumes active: "\<exists>entry \<in> set (subDiscussions this).
              activeFor (driverName subDiscussion) (accountGlobalId (localUserAccount subDiscussion)) entry"
    and fresh: "\<forall>entry \<in> set (subDiscussions this). globalId (subdiscussion entry) \<noteq> globalId subDiscussion"
    and keeps: "\<forall>a b. driverName (mergeInto a b) = driverName a
                  \<and> accountGlobalId (localUserAccount (mergeInto a b)) = accountGlobalId (localUserAccount a)"
  shows "\<exists>k after. k < length (subDiscussions this)
     \<and> activeFor (driverName subDiscussion) (accountGlobalId (localUserAccount subDiscussion))
         (subDiscussions this ! k)
     \<and> (\<forall>j < k. \<not> activeFor (driverName subDiscussion)
                     (accountGlobalId (localUserAccount subDiscussion)) (subDiscussions this ! j))
     \<and> addSubdiscussion mergeInto now this subDiscussion = (Inr (), after)
     \<and> subDiscussions after =
         (subDiscussions this)[k := (subDiscussions this ! k)\<lparr>subdiscussion :=
              mergeInto (subdiscussion (subDiscussions this ! k)) subDiscussion\<rparr>]
     \<and> length (subDiscussions after) = length (subDiscussions this)
     \<and> length (filter (activeFor (driverName subDiscussion)
                          (accountGlobalId (localUserAccount subDiscussion))) (subDiscussions after))
       = length (filter (activeFor (driverName subDiscussion)
                          (accountGlobalId (localUserAccount subDiscussion))) (subDiscussions this))"
proof -
  define subs where "subs = subDiscussions this"
  define protocol where "protocol = driverName subDiscussion"
  define accountID where "accountID = accountGlobalId (localUserAccount subDiscussion)"
  from active obtain k where k: "k < length subs" "activeFor protocol accountID (subs ! k)"
    "\<forall>j < k. \<not> activeFor protocol accountID (subs ! j)"
    unfolding subs_def protocol_def accountID_def by (rule first_active_index)
  define merged where
    "merged = (subs ! k)\<lparr>subdiscussion := mergeInto (subdiscussion (subs ! k)) subDiscussion\<rparr>"
  have loop: "mergeLoop mergeInto (map (\<lambda>entry. driverName (subdiscussion entry)) subs)
           (map (\<lambda>entry. accountGlobalId (localUserAccount (subdiscussion entry))) subs)
           protocol accountID subDiscussion 0 subs = (subs[k := merged], True)"
    unfolding merged_def using k by (intro mergeLoop_first_active) simp_all
  have no_id: "globalId subDiscussion \<notin> set (map globalId (getSubDiscussions this))"
    using fresh by (auto simp: getSubDiscussions_def)
  have result: "addSubdiscussion mergeInto now this subDiscussion
                  = (Inr (), this\<lparr>subDiscussions := subs[k := merged]\<rparr>)"
    using no_id loop
    by (simp add: addSubdiscussion_def Let_def getSubDiscussions_def subs_def protocol_def
          accountID_def comp_def image_image)
  have still: "activeFor protocol accountID merged = activeFor protocol accountID (subs ! k)"
    using keeps by (simp add: merged_def activeFor_def)
  have count: "length (filter (activeFor protocol accountID) (subs[k := merged]))
                 = length (filter (activeFor protocol accountID) subs)"
    using k(1) still by (rule filter_length_update)
  from k result count show ?thesis
    unfolding subs_def protocol_def accountID_def merged_def
    by (intro exI [of _ k] exI [of _ "this\<lparr>subDiscussions := subs[k := merged]\<rparr>"])
       (simp add: subs_def merged_def)
qed

theorem addSubdiscussion_merges_witness:
  "\<exists>after. addSubdiscussion sampleMerge 5000 (sampleMeta sampleRegistry)
              (sampleDiscussion ''y:d3'' ''y'' ''y:me'') = (Inr (), after)
     \<and> subDiscussions after =
         [\<lparr>subdiscussion = sampleDiscussion ''x:d1'' ''x'' ''x:me'', added = 10, removed = Some 1000\<rparr>,
          \<lparr>subdiscussion = sampleDiscussion ''y:d2+y:d3'' ''y'' ''y:me'', added = 20, removed = None\<rparr>]
     \<and> length (filter (activeFor ''y'' ''y:me'') (subDiscussions (sampleMeta sampleRegistry))) = 1
     \<and> length (filter (activeFor ''y'' ''y:me'') (subDiscussions after)) = 1"
proof -
  have active: "\<exists>entry \<in> set (subDiscussions (sampleMeta sampleRegistry)).
      activeFor (driverName (sampleDiscussion ''y:d3'' ''y'' ''y:me''))
        (accountGlobalId (localUserAccount (sampleDiscussion ''y:d3'' ''y'' ''y:me''))) entry"
    by (simp add: sampleMeta_def sampleRegistry_def sampleDiscussion_def activeFor_def)
  have fresh: "\<forall>entry \<in> set (subDiscussions (sampleMeta sampleRegistry)).
      globalId (subdiscussion entry) \<noteq> globalId (sampleDiscussion ''y:d3'' ''y'' ''y:me'')"
    by (simp add: sampleMeta_def sampleRegistry_def sampleDiscussion_def)
  have keeps: "\<forall>a b. driverName (sampleMerge a b) = driverName a
      \<and> accountGlobalId (localUserAccount (sampleMerge a b)) = accountGlobalId (localUserAccount a)"
    by (simp add: sampleMerge_def)
  have pair: "driverName (sampleDiscussion ''y:d3'' ''y'' ''y:me'') = ''y''"
    "accountGlobalId (localUserAccount (sampleDiscussion ''y:d3'' ''y'' ''y:me'')) = ''y:me''"
    by (simp_all add: sampleDiscussion_def)
  have before: "subDiscussions (sampleMeta sampleRegistry) = sampleRegistry"
    "length sampleRegistry = 2"
    "\<not> activeFor ''y'' ''y:me'' (sampleRegistry ! 0)"
    "length (filter (activeFor ''y'' ''y:me'') sampleRegistry) = 1"
    by (simp_all add: sampleMeta_def sampleRegistry_def sampleDiscussion_def activeFor_def)
  from addSubdiscussion_merges [OF active fresh keeps, of 5000] obtain k after where
    k: "k < 2" "activeFor ''y'' ''y:me'' (sampleRegistry ! k)"
    and result: "addSubdiscussion sampleMerge 5000 (sampleMeta sampleRegistry)
                   (sampleDiscussion ''y:d3'' ''y'' ''y:me'') = (Inr (), after)"
    and merged: "subDiscussions after =
        sampleRegistry[k := (sampleRegistry ! k)\<lparr>subdiscussion :=
           sampleMerge (subdiscussion (sampleRegistry ! k)) (sampleDiscussion ''y:d3'' ''y'' ''y:me'')\<rparr>]"
    and count: "length (filter (activeFor ''y'' ''y:me'') (subDiscussions after))
                  = length (filter (activeFor ''y'' ''y:me'') sampleRegistry)"
    unfolding pair before by blast
  from k before(3) have "k = 1"
    by (cases "k = 0") auto
  with merged have "subDiscussions after =
         [\<lparr>subdiscussion = sampleDiscussion ''x:d1'' ''x'' ''x:me'', added = 10, removed = Some 1000\<rparr>,
          \<lparr>subdiscussion = sampleDiscussion ''y:d2+y:d3'' ''y'' ''y:me'', added = 20, removed = None\<rparr>]"
    by (simp add: sampleRegistry_def sampleMerge_def sampleDiscussion_def)
  with result count before show ?thesis
    by simp
qed

section \<open>isHeterogeneous: the claim\<close>

lemma differsFromFirst_iff: "differsFromFirst first xs \<longleftrightarrow> (\<exists>x \<in> set xs. x \<noteq> first)"
  by (induction xs) auto

lemma some_differs_first:
  assumes "xs \<noteq> []"
  shows "(\<exists>x \<in> set xs. f x \<noteq> f (xs ! 0)) \<longleftrightarrow> (\<exists>a \<in> set xs. \<exists>b \<in> set xs. f a \<noteq> f b)"
proof
  assume "\<exists>x \<in> set xs. f x \<noteq> f (xs ! 0)"
  moreover from assms have "xs ! 0 \<in> set xs" by simp
  ultimately show "\<exists>a \<in> set xs. \<exists>b \<in> set xs. f a \<noteq> f b" by blast
next
  assume "\<exists>a \<in> set xs. \<exists>b \<in> set xs. f a \<noteq> f b"
  then obtain a b where ab: "a \<in> set xs" "b \<in> set xs" "f a \<noteq> f b" by blast
  show "\<exists>x \<in> set xs. f x \<noteq> f (xs ! 0)"
  proof (cases "f a = f (xs ! 0)")
    case True
    with ab(3) have "f b \<noteq> f (xs ! 0)" by simp
    with ab(2) show ?thesis by blast
  next
    case False
    with ab(1) show ?thesis by blast
  qed
qed

lemma isHeterogeneous_code:
  "isHeterogeneous this \<longleftrightarrow>
     (\<exists>x \<in> set (subDiscussions this).
         driverName (subdiscussion x) \<noteq> driverName (subdiscussion (subDiscussions this ! 0)))
   \<or> (\<exists>x \<in> set (subDiscussions this).
         accountGlobalId (localUserAccount (subdiscussion x))
           \<noteq> accountGlobalId (localUserAccount (subdiscussion (subDiscussions this ! 0))))"
proof (cases "subDiscussions this")
  case Nil
  then show ?thesis by (simp add: isHeterogeneous_def)
next
  case (Cons first rest)
  have "isHeterogeneous this \<longleftrightarrow>
      differsFromFirst (driverName (subdiscussion first)) (map driverName (map subdiscussion (first # rest)))
    \<or> differsFromFirst (accountGlobalId (localUserAccount (subdiscussion first)))
         (map (\<lambda>subdiscussion. accountGlobalId (localUserAccount subdiscussion))
            (map subdiscussion (first # rest)))"
    unfolding isHeterogeneous_def getSubDiscussions_def Cons Let_def by simp
  then show ?thesis
    unfolding differsFromFirst_iff Cons by simp
qed

text \<open>
  C7, as the claim states it, fails: \<open>sampleRegistry\<close> holds two entries, the first
  removed and the second, of another driver and account, active. With this single active
  sub-discussion \<^verbatim>\<open>isHeterogeneous\<close> is true.
\<close>

theorem isHeterogeneous_counts_removed:
  "isHeterogeneous (sampleMeta sampleRegistry)
   \<and> length (subDiscussions (sampleMeta sampleRegistry)) = 2
   \<and> removed (subDiscussions (sampleMeta sampleRegistry) ! 0) = Some 1000
   \<and> removed (subDiscussions (sampleMeta sampleRegistry) ! 1) = None"
  by (simp add: isHeterogeneous_def getSubDiscussions_def sampleMeta_def sampleRegistry_def
        sampleDiscussion_def)

text \<open>
  C7, amended. \<^verbatim>\<open>isHeterogeneous\<close> is true exactly when two registry entries, removed ones
  included, differ in driver name or in local-account global id; it is false for a
  registry of zero or one entry.
\<close>

theorem isHeterogeneous_all_entries:
  "(isHeterogeneous this \<longleftrightarrow>
      (\<exists>a \<in> set (subDiscussions this). \<exists>b \<in> set (subDiscussions this).
          driverName (subdiscussion a) \<noteq> driverName (subdiscussion b)
        \<or> accountGlobalId (localUserAccount (subdiscussion a))
            \<noteq> accountGlobalId (localUserAccount (subdiscussion b))))
   \<and> (length (subDiscussions this) \<le> 1 \<longrightarrow> \<not> isHeterogeneous this)"
proof -
  define subs where "subs = subDiscussions this"
  define drv where "drv entry = driverName (subdiscussion entry)" for entry :: Subdiscussion
  define acc where "acc entry = accountGlobalId (localUserAccount (subdiscussion entry))"
    for entry :: Subdiscussion
  have code: "isHeterogeneous this \<longleftrightarrow>
      (\<exists>x \<in> set subs. drv x \<noteq> drv (subs ! 0)) \<or> (\<exists>x \<in> set subs. acc x \<noteq> acc (subs ! 0))"
    unfolding subs_def drv_def acc_def by (rule isHeterogeneous_code)
  have pairs: "isHeterogeneous this \<longleftrightarrow>
      (\<exists>a \<in> set subs. \<exists>b \<in> set subs. drv a \<noteq> drv b \<or> acc a \<noteq> acc b)"
  proof (cases "subs = []")
    case True
    with code show ?thesis by simp
  next
    case False
    from some_differs_first [OF False, of drv] some_differs_first [OF False, of acc] code
    show ?thesis by blast
  qed
  have small: "\<not> isHeterogeneous this" if "length subs \<le> 1"
  proof -
    from that have "subs = [] \<or> (\<exists>x. subs = [x])"
      by (cases subs) auto
    with pairs show ?thesis by auto
  qed
  from pairs small show ?thesis
    unfolding subs_def drv_def acc_def by blast
qed

theorem isHeterogeneous_all_entries_witness:
  "length (subDiscussions (sampleMeta [sampleRegistry ! 1])) \<le> 1
   \<and> \<not> isHeterogeneous (sampleMeta [sampleRegistry ! 1])"
proof -
  have single: "length (subDiscussions (sampleMeta [sampleRegistry ! 1])) \<le> 1"
    by (simp add: sampleMeta_def)
  with isHeterogeneous_all_entries [of "sampleMeta [sampleRegistry ! 1]"] show ?thesis
    by blast
qed

section \<open>getParticipants: the claim\<close>

lemma collectParticipants_part: "fst (collectParticipants options (part, counter) parts) = part"
  by (simp add: collectParticipants_def Let_def split: option.splits)

lemma foldl_collectParticipants_part:
  "fst (foldl (collectParticipants options) state fetched) = fst state"
proof (induction fetched arbitrary: state)
  case Nil
  show ?case by simp
next
  case (Cons parts fetched)
  show ?case
    using Cons.IH [of "collectParticipants options state parts"]
      collectParticipants_part [of options "fst state" "snd state" parts]
    by simp
qed

lemma Bluebird_all_rejected: "p \<in> set ps \<Longrightarrow> isl p \<Longrightarrow> isl (Bluebird_all ps)"
  by (induction ps) (auto split: sum.splits)

text \<open>
  C10. Whatever the sub-discussions return and whatever the options, the array
  \<^verbatim>\<open>getParticipants\<close> is fulfilled with is empty: it is fulfilled with \<open>[]\<close> when every
  sub-discussion's own retrieval is fulfilled, and it is never fulfilled with anything
  else. (When a sub-discussion's retrieval is rejected, so is \<^verbatim>\<open>Bluebird.all\<close>.)
\<close>

theorem getParticipants_empty:
  "((\<forall>discuss \<in> set (getSubDiscussions this). \<exists>parts. getParticipantsOf discuss options = Inr parts)
      \<longrightarrow> getParticipants getParticipantsOf options this = Inr [])
   \<and> (\<forall>participants. getParticipants getParticipantsOf options this = Inr participants
      \<longrightarrow> participants = [])"
proof (intro conjI impI allI)
  assume ok: "\<forall>discuss \<in> set (getSubDiscussions this). \<exists>parts. getParticipantsOf discuss options = Inr parts"
  define results where "results = map (\<lambda>discuss. getParticipantsOf discuss options) (getSubDiscussions this)"
  from ok have "results = map Inr (map projr results)"
    by (auto simp: results_def intro!: nth_equalityI)
  then have "Bluebird_all results = Inr (map projr results)"
    by (metis Bluebird_all_fulfilled)
  then show "getParticipants getParticipantsOf options this = Inr []"
    by (simp add: getParticipants_def results_def [symmetric] foldl_collectParticipants_part)
next
  fix participants
  assume "getParticipants getParticipantsOf options this = Inr participants"
  then show "participants = []"
    by (auto simp: getParticipants_def foldl_collectParticipants_part split: sum.splits)
qed


theorem getParticipants_empty_witness:
  "getParticipants (\<lambda>discuss options. Inr [\<lparr>contactGlobalId = ''x:bob''\<rparr>])
     (Some \<lparr>maxParticipants = Some 5\<rparr>) (sampleMeta sampleRegistry) = Inr []"
proof -
  have "\<forall>discuss \<in> set (getSubDiscussions (sampleMeta sampleRegistry)).
          \<exists>parts. (\<lambda>discuss options. Inr [\<lparr>contactGlobalId = ''x:bob''\<rparr>]) discuss
                     (Some \<lparr>maxParticipants = Some 5\<rparr>) = Inr parts"
    by simp
  with getParticipants_empty
         [of "sampleMeta sampleRegistry" "\<lambda>discuss options. Inr [\<lparr>contactGlobalId = ''x:bob''\<rparr>]"
             "Some \<lparr>maxParticipants = Some 5\<rparr>"]
  show ?thesis
    by blast
qed

section \<open>The relay: the claim\<close>

lemma Bluebird_all_values:
  "\<forall>x \<in> set xs. f x = Inr (g x) \<Longrightarrow> Bluebird_all (map f xs) = Inr (map g xs)"
  by (induction xs) simp_all

text \<open>
  C6, as the claim states it, fails. The Meta-Discussion has three active sub-discussions;
  a message "hi" comes in on the first; the send to the second is rejected and the send
  to the third is fulfilled. No "message" event is emitted.
\<close>

theorem relay_failure_emits_nothing:
  "isl (sampleSend (sampleDiscussion ''y:d2'' ''y'' ''y:me'') (NewMessage ''>>hi''))
   \<and> sampleSend (sampleDiscussion ''z:d3'' ''z'' ''z:me'') (NewMessage ''>>hi'')
       = Inr \<lparr>body = ''>>hi'', creationDate = 7000\<rparr>
   \<and> attachEventsTo_listener sampleSend (sampleMeta relayRegistry)
       (sampleDiscussion ''x:d1'' ''x'' ''x:me'') \<lparr>body = ''hi'', creationDate = 6000\<rparr> = []"
  by (simp add: attachEventsTo_listener_def dispatchFrom_def Bluebird_map_def relayTargets_def
        getSubDiscussions_def sampleMeta_def relayRegistry_def sampleDiscussion_def sampleSend_def)

text \<open>
  C6, amended. When the send to some sibling is rejected, \<^verbatim>\<open>dispatchFrom\<close> is rejected and
  the listener emits no event. When the send to every sibling is fulfilled, the listener
  emits one "message" event whose Meta-Message holds the sent messages, in registry order,
  followed by the original.
\<close>

theorem relay_all_or_nothing:
  "((\<exists>sibling \<in> set (relayTargets this discussionSource).
        isl (sendMessageTo sibling (NewMessage (''>>'' @ body messageSource))))
      \<longrightarrow> isl (dispatchFrom sendMessageTo this discussionSource messageSource)
        \<and> attachEventsTo_listener sendMessageTo this discussionSource messageSource = [])
   \<and> ((\<forall>sibling \<in> set (relayTargets this discussionSource).
        sendMessageTo sibling (NewMessage (''>>'' @ body messageSource)) = Inr (sent sibling))
      \<longrightarrow> attachEventsTo_listener sendMessageTo this discussionSource messageSource
          = [(''message'', \<lparr>eventType = ''message'', eventMessage =
                MetaMessage (map sent (relayTargets this discussionSource) @ [messageSource])\<rparr>)])"
proof (intro conjI impI)
  assume "\<exists>sibling \<in> set (relayTargets this discussionSource).
        isl (sendMessageTo sibling (NewMessage (''>>'' @ body messageSource)))"
  then obtain sibling where "sibling \<in> set (relayTargets this discussionSource)"
    and "isl (sendMessageTo sibling (NewMessage (''>>'' @ body messageSource)))"
    by blast
  then have "isl (Bluebird_map (\<lambda>okSubdiscussion. sendMessageTo okSubdiscussion
                 (NewMessage (''>>'' @ body messageSource))) (relayTargets this discussionSource))"
    unfolding Bluebird_map_def by (intro Bluebird_all_rejected [where p = "sendMessageTo sibling (NewMessage (''>>'' @ body messageSource))"]) auto
  then show rejected: "isl (dispatchFrom sendMessageTo this discussionSource messageSource)"
    by (auto simp: dispatchFrom_def Let_def split: sum.splits)
  then show "attachEventsTo_listener sendMessageTo this discussionSource messageSource = []"
    by (auto simp: attachEventsTo_listener_def split: sum.splits)
next
  assume "\<forall>sibling \<in> set (relayTargets this discussionSource).
        sendMessageTo sibling (NewMessage (''>>'' @ body messageSource)) = Inr (sent sibling)"
  then have "Bluebird_map (\<lambda>okSubdiscussion. sendMessageTo okSubdiscussion
                 (NewMessage (''>>'' @ body messageSource))) (relayTargets this discussionSource)
             = Inr (map sent (relayTargets this discussionSource))"
    unfolding Bluebird_map_def by (rule Bluebird_all_values)
  then show "attachEventsTo_listener sendMessageTo this discussionSource messageSource
          = [(''message'', \<lparr>eventType = ''message'', eventMessage =
                MetaMessage (map sent (relayTargets this discussionSource) @ [messageSource])\<rparr>)]"
    by (simp add: attachEventsTo_listener_def dispatchFrom_def Let_def)
qed

theorem relay_all_or_nothing_witness:
  "attachEventsTo_listener sampleSend (sampleMeta relayRegistry)
       (sampleDiscussion ''x:d1'' ''x'' ''x:me'') \<lparr>body = ''hi'', creationDate = 6000\<rparr> = []
   \<and> attachEventsTo_listener sampleSend (sampleMeta relayRegistry)
       (sampleDiscussion ''y:d2'' ''y'' ''y:me'') \<lparr>body = ''hi'', creationDate = 6000\<rparr>
     = [(''message'', \<lparr>eventType = ''message'', eventMessage =
          MetaMessage [\<lparr>body = ''>>hi'', creationDate = 7000\<rparr>, \<lparr>body = ''>>hi'', creationDate = 7000\<rparr>,
                       \<lparr>body = ''hi'', creationDate = 6000\<rparr>]\<rparr>)]"
proof -
  have from_x: "relayTargets (sampleMeta relayRegistry) (sampleDiscussion ''x:d1'' ''x'' ''x:me'')
      = [sampleDiscussion ''y:d2'' ''y'' ''y:me'', sampleDiscussion ''z:d3'' ''z'' ''z:me'']"
    and from_y: "relayTargets (sampleMeta relayRegistry) (sampleDiscussion ''y:d2'' ''y'' ''y:me'')
      = [sampleDiscussion ''x:d1'' ''x'' ''x:me'', sampleDiscussion ''z:d3'' ''z'' ''z:me'']"
    by (simp_all add: relayTargets_def getSubDiscussions_def sampleMeta_def relayRegistry_def
          sampleDiscussion_def)
  have failing: "\<exists>sibling \<in> set (relayTargets (sampleMeta relayRegistry)
                                   (sampleDiscussion ''x:d1'' ''x'' ''x:me'')).
      isl (sampleSend sibling (NewMessage (''>>'' @ body \<lparr>body = ''hi'', creationDate = 6000\<rparr>)))"
    unfolding from_x by (simp add: sampleSend_def sampleDiscussion_def)
  have passing: "\<forall>sibling \<in> set (relayTargets (sampleMeta relayRegistry)
                                   (sampleDiscussion ''y:d2'' ''y'' ''y:me'')).
      sampleSend sibling (NewMessage (''>>'' @ body \<lparr>body = ''hi'', creationDate = 6000\<rparr>))
        = Inr ((\<lambda>sibling. \<lparr>body = ''>>hi'', creationDate = 7000\<rparr>) sibling)"
    unfolding from_y by (simp add: sampleSend_def sampleDiscussion_def)
  from relay_all_or_nothing
         [of "sampleMeta relayRegistry" "sampleDiscussion ''x:d1'' ''x'' ''x:me''" sampleSend
             "\<lparr>body = ''hi'', creationDate = 6000\<rparr>"] failing
  have first: "attachEventsTo_listener sampleSend (sampleMeta relayRegistry)
       (sampleDiscussion ''x:d1'' ''x'' ''x:me'') \<lparr>body = ''hi'', creationDate = 6000\<rparr> = []"
    by blast
  from relay_all_or_nothing
         [of "sampleMeta relayRegistry" "sampleDiscussion ''y:d2'' ''y'' ''y:me''" sampleSend
             "\<lparr>body = ''hi'', creationDate = 6000\<rparr>" "\<lambda>sibling. \<lparr>body = ''>>hi'', creationDate = 7000\<rparr>"]
       passing
  have "attachEventsTo_listener sampleSend (sampleMeta relayRegistry)
       (sampleDiscussion ''y:d2'' ''y'' ''y:me'') \<lparr>body = ''hi'', creationDate = 6000\<rparr>
     = [(''message'', \<lparr>eventType = ''message'', eventMessage =
          MetaMessage (map (\<lambda>sibling. \<lparr>body = ''>>hi'', creationDate = 7000\<rparr>)
                         (relayTargets (sampleMeta relayRegistry)
                            (sampleDiscussion ''y:d2'' ''y'' ''y:me''))
                       @ [\<lparr>body = ''hi'', creationDate = 6000\<rparr>])\<rparr>)]"
    by blast
  with first show ?thesis
    unfolding from_y by simp
qed

section \<open>User.getOrCreateDiscussion: the claim\<close>

lemma contactLoop_no_match:
  "set accountContactsIDs \<inter> set contactsIDs = {} \<Longrightarrow>
   contactLoop account accountContactsIDs contactsIDs rightUser = (rightUser, False)"
  by (induction contactsIDs arbitrary: rightUser) auto

lemma contactLoop_same:
  "rightUser = None \<or> rightUser = Some account \<Longrightarrow>
   contactLoop account accountContactsIDs contactsIDs rightUser =
     (if set accountContactsIDs \<inter> set contactsIDs = {} then rightUser else Some account, False)"
  by (induction contactsIDs arbitrary: rightUser) auto

lemma accountLoop_no_match:
  "\<forall>userAccount \<in> set fullUserAccounts. set (snd userAccount) \<inter> set contactsIDs = {} \<Longrightarrow>
   accountLoop fullUserAccounts contactsIDs rightUser = (rightUser, False)"
  by (induction fullUserAccounts) (simp_all add: contactLoop_no_match)

lemma accountLoop_single:
  assumes "k < length fullUserAccounts"
    and "set (snd (fullUserAccounts ! k)) \<inter> set contactsIDs \<noteq> {}"
    and "\<forall>j < length fullUserAccounts. j \<noteq> k \<longrightarrow> set (snd (fullUserAccounts ! j)) \<inter> set contactsIDs = {}"
  shows "accountLoop fullUserAccounts contactsIDs None = (Some (fst (fullUserAccounts ! k)), False)"
  using assms
proof (induction fullUserAccounts arbitrary: k)
  case Nil
  then show ?case by simp
next
  case (Cons userAccount rest)
  show ?case
  proof (cases k)
    case 0
    have "\<forall>other \<in> set rest. set (snd other) \<inter> set contactsIDs = {}"
    proof
      fix other assume "other \<in> set rest"
      then obtain j where "j < length rest" "other = rest ! j"
        by (auto simp: in_set_conv_nth)
      with Cons.prems(3) [rule_format, of "Suc j"] 0 show "set (snd other) \<inter> set contactsIDs = {}"
        by simp
    qed
    from accountLoop_no_match [OF this] Cons.prems(2) 0 show ?thesis
      by (simp add: contactLoop_same)
  next
    case (Suc k')
    from Cons.prems(3) [rule_format, of 0] Suc
    have head: "set (snd userAccount) \<inter> set contactsIDs = {}" by simp
    have "accountLoop rest contactsIDs None = (Some (fst (rest ! k')), False)"
    proof (rule Cons.IH)
      show "k' < length rest" using Cons.prems(1) Suc by simp
      show "set (snd (rest ! k')) \<inter> set contactsIDs \<noteq> {}" using Cons.prems(2) Suc by simp
      show "\<forall>j < length rest. j \<noteq> k' \<longrightarrow> set (snd (rest ! j)) \<inter> set contactsIDs = {}"
      proof (intro allI impI)
        fix j assume "j < length rest" "j \<noteq> k'"
        with Cons.prems(3) [rule_format, of "Suc j"] Suc
        show "set (snd (rest ! j)) \<inter> set contactsIDs = {}" by simp
      qed
    qed
    with head Suc show ?thesis
      by (simp add: contactLoop_no_match)
  qed
qed

text \<open>
  C9. When no owned account knows any of the target contacts, \<^verbatim>\<open>getOrCreateDiscussion\<close>
  is rejected with "One of the contacts is unknown by the current user.". When exactly
  one owned account knows some of them, the call returns what that account's own
  \<^verbatim>\<open>getOrCreateDiscussion\<close> returns for the same contacts, as it is.
\<close>

theorem getOrCreateDiscussion_resolution:
  "((\<forall>account \<in> set (accounts this). \<not> knows account contacts)
      \<longrightarrow> getOrCreateDiscussion accountGetOrCreate addParticipants uuid this contacts
          = Inl (Incident ''One of the contacts is unknown by the current user.''))
   \<and> (\<forall>k < length (accounts this).
        knows (accounts this ! k) contacts
        \<and> (\<forall>j < length (accounts this). j \<noteq> k \<longrightarrow> \<not> knows (accounts this ! j) contacts)
      \<longrightarrow> getOrCreateDiscussion accountGetOrCreate addParticipants uuid this contacts
          = accountGetOrCreate (accounts this ! k) contacts)"
proof (intro conjI impI allI)
  define fullUserAccounts where
    "fullUserAccounts = map (\<lambda>(reference, account).
                                    (reference, map contactGlobalId (contactAccounts account)))
                                 (enumerate 0 (accounts this))"
  have entry: "fullUserAccounts ! j = (j, map contactGlobalId (contactAccounts (accounts this ! j)))"
    if "j < length (accounts this)" for j
    using that by (simp add: fullUserAccounts_def nth_enumerate_eq)
  have len: "length fullUserAccounts = length (accounts this)"
    by (simp add: fullUserAccounts_def)
  {
    assume none: "\<forall>account \<in> set (accounts this). \<not> knows account contacts"
    have "\<forall>userAccount \<in> set fullUserAccounts.
            set (snd userAccount) \<inter> set (map contactGlobalId contacts) = {}"
    proof
      fix userAccount assume "userAccount \<in> set fullUserAccounts"
      then obtain j where j: "j < length (accounts this)" "userAccount = fullUserAccounts ! j"
        by (auto simp: in_set_conv_nth len)
      with none have "\<not> knows (accounts this ! j) contacts" by simp
      with j entry [OF j(1)] show "set (snd userAccount) \<inter> set (map contactGlobalId contacts) = {}"
        by (simp add: knows_def)
    qed
    from accountLoop_no_match [OF this, of None]
    show "getOrCreateDiscussion accountGetOrCreate addParticipants uuid this contacts
          = Inl (Incident ''One of the contacts is unknown by the current user.'')"
      by (simp add: getOrCreateDiscussion_def getAccounts_def fullUserAccounts_def)
  }
  {
    fix k
    assume k: "k < length (accounts this)"
      and single: "knows (accounts this ! k) contacts
        \<and> (\<forall>j < length (accounts this). j \<noteq> k \<longrightarrow> \<not> knows (accounts this ! j) contacts)"
    have "accountLoop fullUserAccounts (map contactGlobalId contacts) None
            = (Some (fst (fullUserAccounts ! k)), False)"
    proof (rule accountLoop_single)
      show "k < length fullUserAccounts" using k len by simp
      show "set (snd (fullUserAccounts ! k)) \<inter> set (map contactGlobalId contacts) \<noteq> {}"
        using single entry [OF k] by (simp add: knows_def)
      show "\<forall>j < length fullUserAccounts. j \<noteq> k \<longrightarrow>
              set (snd (fullUserAccounts ! j)) \<inter> set (map contactGlobalId contacts) = {}"
        using single entry len by (simp add: knows_def)
    qed
    then have "accountLoop fullUserAccounts (map contactGlobalId contacts) None = (Some k, False)"
      using entry [OF k] by simp
    then show "getOrCreateDiscussion accountGetOrCreate addParticipants uuid this contacts
          = accountGetOrCreate (accounts this ! k) contacts"
      by (simp add: getOrCreateDiscussion_def getAccounts_def fullUserAccounts_def)
  }
qed


theorem getOrCreateDiscussion_resolution_witness:
  "getOrCreateDiscussion sampleAccountGetOrCreate (\<lambda>discussion contacts. Inr discussion) ''id''
       sampleUser [\<lparr>contactGlobalId = ''q:nobody''\<rparr>]
     = Inl (Incident ''One of the contacts is unknown by the current user.'')
   \<and> getOrCreateDiscussion sampleAccountGetOrCreate (\<lambda>discussion contacts. Inr discussion) ''id''
       sampleUser [\<lparr>contactGlobalId = ''x:carol''\<rparr>]
     = Inr (Simple (sampleDiscussion ''x:new'' ''x'' ''x:me''))"
proof -
  have unknown: "\<forall>account \<in> set (accounts sampleUser).
      \<not> knows account [\<lparr>contactGlobalId = ''q:nobody''\<rparr>]"
    by (simp add: sampleUser_def knows_def)
  have owner: "0 < length (accounts sampleUser)"
    and single: "knows (accounts sampleUser ! 0) [\<lparr>contactGlobalId = ''x:carol''\<rparr>]
      \<and> (\<forall>j < length (accounts sampleUser). j \<noteq> 0 \<longrightarrow>
            \<not> knows (accounts sampleUser ! j) [\<lparr>contactGlobalId = ''x:carol''\<rparr>])"
    by (simp_all add: sampleUser_def knows_def less_Suc_eq)
  have delegated: "sampleAccountGetOrCreate (accounts sampleUser ! 0) [\<lparr>contactGlobalId = ''x:carol''\<rparr>]
      = Inr (Simple (sampleDiscussion ''x:new'' ''x'' ''x:me''))"
    by (simp add: sampleAccountGetOrCreate_def sampleUser_def)
  from getOrCreateDiscussion_resolution
         [of sampleUser "[\<lparr>contactGlobalId = ''q:nobody''\<rparr>]" sampleAccountGetOrCreate
             "\<lambda>discussion contacts. Inr discussion" "''id''"] unknown
  have first: "getOrCreateDiscussion sampleAccountGetOrCreate (\<lambda>discussion contacts. Inr discussion)
       ''id'' sampleUser [\<lparr>contactGlobalId = ''q:nobody''\<rparr>]
     = Inl (Incident ''One of the contacts is unknown by the current user.'')"
    by blast
  from getOrCreateDiscussion_resolution
         [of sampleUser "[\<lparr>contactGlobalId = ''x:carol''\<rparr>]" sampleAccountGetOrCreate
             "\<lambda>discussion contacts. Inr discussion" "''id''"] owner single
  have "getOrCreateDiscussion sampleAccountGetOrCreate (\<lambda>discussion contacts. Inr discussion)
       ''id'' sampleUser [\<lparr>contactGlobalId = ''x:carol''\<rparr>]
     = sampleAccountGetOrCreate (accounts sampleUser ! 0) [\<lparr>contactGlobalId = ''x:carol''\<rparr>]"
    by blast
  with first delegated show ?thesis
    by simp
qed

end
